theory Spec2Isabelle
  imports Main "HOL-Library.Word" "HOL-Library.Sublist"
begin

section \<open>Checkpoint remover: when memory recovery is needed\<close>

text \<open>
  \<^verbatim>\<open>size_t\<close> is a 64-bit unsigned machine integer: addition, subtraction and
  multiplication wrap around, division truncates. A partition id (\<^verbatim>\<open>Vbid\<close>) wraps a
  16-bit unsigned integer.
\<close>

type_synonym size_t = "64 word"
type_synonym Vbid = "16 word"

text \<open>
  What \<^verbatim>\<open>isReductionInCheckpointMemoryNeeded\<close> reads from the configuration, the
  statistics and the partition map. The accessors themselves live in headers that are
  not part of the sources at hand, so the values they return are the fields of a record:
  \<^item> \<open>maxSize\<close>: \<^verbatim>\<open>config.getMaxSize()\<close>, the bucket quota;
  \<^item> \<open>cursorDroppingCheckpointMemUpperMark\<close>, \<open>cursorDroppingCheckpointMemLowerMark\<close>:
    the two percentages of the configuration;
  \<^item> \<open>vBucketsTotalCheckpointMemoryUsage\<close>: the checkpoint memory of all partitions;
  \<^item> \<open>estimatedTotalMemoryUsed\<close>, \<open>mem_low_wat\<close>, \<open>cursorDroppingUThreshold\<close>,
    \<open>cursorDroppingLThreshold\<close>: the statistics.
\<close>

record MemoryView =
  maxSize :: size_t
  cursorDroppingCheckpointMemUpperMark :: size_t
  cursorDroppingCheckpointMemLowerMark :: size_t
  vBucketsTotalCheckpointMemoryUsage :: size_t
  estimatedTotalMemoryUsed :: size_t
  mem_low_wat :: size_t
  cursorDroppingUThreshold :: size_t
  cursorDroppingLThreshold :: size_t

text \<open>
  \<^verbatim>\<open>ClosedUnrefCheckpointRemoverTask::isReductionInCheckpointMemoryNeeded\<close>, with the
  local constants of the source as the bindings of one \<open>let\<close>. The log lines are left out.
\<close>

definition isReductionInCheckpointMemoryNeeded :: "MemoryView \<Rightarrow> bool \<times> size_t" where
  "isReductionInCheckpointMemoryNeeded m =
     (let bucketQuota = maxSize m;
          vBucketChkptMemSize = vBucketsTotalCheckpointMemoryUsage m;
          chkptMemLimit = (bucketQuota * cursorDroppingCheckpointMemUpperMark m) div 100;
          hitCheckpointMemoryThreshold = (chkptMemLimit \<le> vBucketChkptMemSize);
          aboveLowWatermark = (mem_low_wat m \<le> estimatedTotalMemoryUsed m);
          ckptMemExceedsCheckpointMemoryThreshold =
            (aboveLowWatermark \<and> hitCheckpointMemoryThreshold);
          memUsedExceedsCursorDroppingUpperMark =
            (cursorDroppingUThreshold m < estimatedTotalMemoryUsed m)
      in if memUsedExceedsCursorDroppingUpperMark \<or> ckptMemExceedsCheckpointMemoryThreshold
         then
           (if ckptMemExceedsCheckpointMemoryThreshold
            then (True, estimatedTotalMemoryUsed m -
                          (bucketQuota * cursorDroppingCheckpointMemLowerMark m) div 100)
            else (True, estimatedTotalMemoryUsed m - cursorDroppingLThreshold m))
         else (False, 0))"

text \<open>
  The two local booleans of the source that decide the branch taken, as the source
  computes them on machine integers.
\<close>

definition memUsedExceedsCursorDroppingUpperMark :: "MemoryView \<Rightarrow> bool" where
  "memUsedExceedsCursorDroppingUpperMark m \<longleftrightarrow>
     cursorDroppingUThreshold m < estimatedTotalMemoryUsed m"

definition ckptMemExceedsCheckpointMemoryThreshold :: "MemoryView \<Rightarrow> bool" where
  "ckptMemExceedsCheckpointMemoryThreshold m \<longleftrightarrow>
     mem_low_wat m \<le> estimatedTotalMemoryUsed m \<and>
     (maxSize m * cursorDroppingCheckpointMemUpperMark m) div 100
       \<le> vBucketsTotalCheckpointMemoryUsage m"

text \<open>
  The two trigger conditions in the words of the specification (section 4.4, step 1),
  read on the natural numbers the machine integers stand for. "At least \<open>p\<close> percent of
  the quota \<open>q\<close>" is exact: a checkpoint memory \<open>c\<close> with \<open>q * p \<le> 100 * c\<close>.
\<close>

definition needBecauseTotalMem :: "MemoryView \<Rightarrow> bool" where
  "needBecauseTotalMem m \<longleftrightarrow>
     unat (cursorDroppingUThreshold m) < unat (estimatedTotalMemoryUsed m)"


text \<open>A state in which both triggers hold and the two lower limits differ.\<close>

definition bothTriggersView :: MemoryView where
  "bothTriggersView =
     \<lparr> maxSize = 1000,
       cursorDroppingCheckpointMemUpperMark = 50,
       cursorDroppingCheckpointMemLowerMark = 30,
       vBucketsTotalCheckpointMemoryUsage = 600,
       estimatedTotalMemoryUsed = 960,
       mem_low_wat = 750,
       cursorDroppingUThreshold = 950,
       cursorDroppingLThreshold = 800 \<rparr>"


section \<open>Checkpoint remover: the recovery run\<close>

text \<open>
  The two mechanisms of \<^verbatim>\<open>attemptMemoryRecovery\<close> and the result of an expel, with the
  two fields the remover reads.
\<close>

datatype MemoryRecoveryMechanism = checkpointExpel | cursorDrop

record ExpelResult =
  expelCount :: size_t
  estimateOfFreeMemory :: size_t

text \<open>A cursor handle, as \<^verbatim>\<open>getListOfCursorsToDrop\<close> returns it, is named by its cursor's name.\<close>

type_synonym Cursor = string

text \<open>
  The remover and the paging visitor act on the bucket only through calls into other
  components. Each such call is recorded, in order, with its arguments and what it
  returned: the expel of a partition, the request for its droppable cursors, the hook
  \<^verbatim>\<open>handleSlowStream\<close> with its verdict, the read of the memory of the unreferenced
  checkpoints, the scheduling of the checkpoint visitor, the snooze, and the
  notification of the paused connections.
\<close>

datatype Event =
    EvExpel Vbid ExpelResult
  | EvGetListOfCursorsToDrop Vbid
  | EvHandleSlowStream Vbid Cursor bool
  | EvUnrefMem Vbid size_t
  | EvVisitAsync
  | EvSnooze
  | EvNotifyVBConnections Vbid "64 word"

text \<open>
  The components the two tasks call are not among the sources at hand (the partition
  map, the checkpoint manager's implementation, the connection map, the configuration).
  They are parameters: a record of functions over the bucket state \<open>'k\<close>, one per call
  of the source. A function that changes the bucket returns the new bucket.
  \<open>getVBucket\<close> tells whether the lookup of a partition yields a partition (\<open>True\<close>) or
  null.
\<close>

record 'k Collaborators =
  getVBucketsSortedByChkMgrMem :: "'k \<Rightarrow> (Vbid \<times> size_t) list"
  getVBucket :: "'k \<Rightarrow> Vbid \<Rightarrow> bool"
  expelUnreferencedCheckpointItems :: "'k \<Rightarrow> Vbid \<Rightarrow> ExpelResult \<times> 'k"
  getListOfCursorsToDrop :: "'k \<Rightarrow> Vbid \<Rightarrow> Cursor list"
  handleSlowStream :: "'k \<Rightarrow> Vbid \<Rightarrow> Cursor \<Rightarrow> bool \<times> 'k"
  getChkMgrMemUsageOfUnrefCheckpoints :: "'k \<Rightarrow> Vbid \<Rightarrow> size_t"
  getMemoryView :: "'k \<Rightarrow> MemoryView"
  isChkExpelEnabled :: "'k \<Rightarrow> bool"
  removeClosedUnrefCheckpoints :: "'k \<Rightarrow> Vbid \<Rightarrow> (size_t \<times> bool) \<times> 'k"
  getHighSeqno :: "'k \<Rightarrow> Vbid \<Rightarrow> 64 word"

text \<open>
  The state the tasks work on: the bucket, the counters of the statistics they update,
  the task's \<open>available\<close> flag and the record of the calls made so far.
\<close>

record 'k Engine =
  kvBucket :: 'k
  cursorsDropped :: size_t
  cursorMemoryFreed :: size_t
  itemsRemovedFromCheckpoints :: size_t
  available :: bool
  calls :: "Event list"

text \<open>
  The inner loop of \<^verbatim>\<open>attemptMemoryRecovery\<close>, case \<^verbatim>\<open>cursorDrop\<close>: over the cursors of
  one partition, with the running \<open>memoryCleared\<close>. The \<open>else\<close> branch is the \<^verbatim>\<open>break\<close>.
\<close>

fun dropCursors ::
  "'k Collaborators \<Rightarrow> Vbid \<Rightarrow> size_t \<Rightarrow> Cursor list \<Rightarrow> size_t \<times> 'k Engine
     \<Rightarrow> size_t \<times> 'k Engine" where
  "dropCursors E vbid amountOfMemoryToClear [] (memoryCleared, st) = (memoryCleared, st)"
| "dropCursors E vbid amountOfMemoryToClear (cursor # cursors) (memoryCleared, st) =
     (if memoryCleared < amountOfMemoryToClear then
        (let (dropped, kv') = handleSlowStream E (kvBucket st) vbid cursor in
         if dropped then
           (let memoryFreed = getChkMgrMemUsageOfUnrefCheckpoints E kv' vbid in
            dropCursors E vbid amountOfMemoryToClear cursors
              (memoryCleared + memoryFreed,
               st\<lparr>kvBucket := kv',
                  cursorsDropped := cursorsDropped st + 1,
                  cursorMemoryFreed := cursorMemoryFreed st + memoryFreed,
                  calls := calls st @ [EvHandleSlowStream vbid cursor True,
                                       EvUnrefMem vbid memoryFreed]\<rparr>))
         else
           dropCursors E vbid amountOfMemoryToClear cursors
             (memoryCleared,
              st\<lparr>kvBucket := kv',
                 calls := calls st @ [EvHandleSlowStream vbid cursor False]\<rparr>))
      else (memoryCleared, st))"

text \<open>
  The outer loop of \<^verbatim>\<open>attemptMemoryRecovery\<close>, over the partitions in the order of the
  list: \<^verbatim>\<open>break\<close> once enough is cleared, \<^verbatim>\<open>continue\<close> on a partition whose lookup yields
  null, else the mechanism's case.
\<close>

fun recoverVBuckets ::
  "'k Collaborators \<Rightarrow> MemoryRecoveryMechanism \<Rightarrow> size_t \<Rightarrow> (Vbid \<times> size_t) list
     \<Rightarrow> size_t \<times> 'k Engine \<Rightarrow> size_t \<times> 'k Engine" where
  "recoverVBuckets E mechanism amountOfMemoryToClear [] (memoryCleared, st) =
     (memoryCleared, st)"
| "recoverVBuckets E mechanism amountOfMemoryToClear (it # vbuckets) (memoryCleared, st) =
     (if amountOfMemoryToClear \<le> memoryCleared then (memoryCleared, st)
      else if \<not> getVBucket E (kvBucket st) (fst it) then
        recoverVBuckets E mechanism amountOfMemoryToClear vbuckets (memoryCleared, st)
      else
        (case mechanism of
           checkpointExpel \<Rightarrow>
             (let (expelResult, kv') =
                    expelUnreferencedCheckpointItems E (kvBucket st) (fst it)
              in recoverVBuckets E mechanism amountOfMemoryToClear vbuckets
                   (memoryCleared + estimateOfFreeMemory expelResult,
                    st\<lparr>kvBucket := kv',
                       calls := calls st @ [EvExpel (fst it) expelResult]\<rparr>))
         | cursorDrop \<Rightarrow>
             (let cursors = getListOfCursorsToDrop E (kvBucket st) (fst it)
              in recoverVBuckets E mechanism amountOfMemoryToClear vbuckets
                   (dropCursors E (fst it) amountOfMemoryToClear cursors
                      (memoryCleared,
                       st\<lparr>calls := calls st @ [EvGetListOfCursorsToDrop (fst it)]\<rparr>)))))"

text \<open>\<^verbatim>\<open>ClosedUnrefCheckpointRemoverTask::attemptMemoryRecovery\<close>.\<close>

definition attemptMemoryRecovery ::
  "'k Collaborators \<Rightarrow> MemoryRecoveryMechanism \<Rightarrow> size_t \<Rightarrow> 'k Engine
     \<Rightarrow> size_t \<times> 'k Engine" where
  "attemptMemoryRecovery E mechanism amountOfMemoryToClear st =
     recoverVBuckets E mechanism amountOfMemoryToClear
       (getVBucketsSortedByChkMgrMem E (kvBucket st)) (0, st)"

text \<open>
  The body of \<^verbatim>\<open>run\<close> inside \<^verbatim>\<open>if (shouldReduceMemory)\<close>, in its two steps: the
  expel over the partitions if expel is enabled (\<open>amountOfMemoryRecovered\<close> stays 0
  otherwise), then cursor dropping for what is still missing.
\<close>

definition expelPhase :: "'k Collaborators \<Rightarrow> size_t \<Rightarrow> 'k Engine \<Rightarrow> size_t \<times> 'k Engine" where
  "expelPhase E amountOfMemoryToClear st =
     (if isChkExpelEnabled E (kvBucket st)
      then attemptMemoryRecovery E checkpointExpel amountOfMemoryToClear st
      else (0, st))"

definition reduceMemory :: "'k Collaborators \<Rightarrow> size_t \<Rightarrow> 'k Engine \<Rightarrow> 'k Engine" where
  "reduceMemory E amountOfMemoryToClear st =
     (let (amountOfMemoryRecovered, st1) = expelPhase E amountOfMemoryToClear st
      in if amountOfMemoryRecovered < amountOfMemoryToClear
         then snd (attemptMemoryRecovery E cursorDrop
                     (amountOfMemoryToClear - amountOfMemoryRecovered) st1)
         else st1)"

text \<open>
  \<^verbatim>\<open>ClosedUnrefCheckpointRemoverTask::run\<close>. The compare-and-exchange on \<open>available\<close>
  succeeds when the flag is set and clears it. The visitor is scheduled inside that
  branch, after the recovery; the snooze follows in every case, and the task returns
  \<open>True\<close>.
\<close>

definition run :: "'k Collaborators \<Rightarrow> 'k Engine \<Rightarrow> bool \<times> 'k Engine" where
  "run E st =
     (let st3 =
        (if available st then
           (let st0 = st\<lparr>available := False\<rparr>;
                (shouldReduceMemory, amountOfMemoryToClear) =
                   isReductionInCheckpointMemoryNeeded (getMemoryView E (kvBucket st0));
                st2 = (if shouldReduceMemory
                       then reduceMemory E amountOfMemoryToClear st0 else st0)
            in st2\<lparr>calls := calls st2 @ [EvVisitAsync]\<rparr>)
         else st)
      in (True, st3\<lparr>calls := calls st3 @ [EvSnooze]\<rparr>))"

section \<open>Paging visitor: removal of closed unreferenced checkpoints\<close>

text \<open>
  \<^verbatim>\<open>PagingVisitor::removeClosedUnrefCheckpoints\<close> on the partition \<open>vbid\<close>. The manager's
  removal returns the number of items removed and the flag \<open>newCheckpointCreated\<close>; the
  high seqno is read after the removal.
\<close>

definition PagingVisitor_removeClosedUnrefCheckpoints ::
  "'k Collaborators \<Rightarrow> Vbid \<Rightarrow> 'k Engine \<Rightarrow> 'k Engine" where
  "PagingVisitor_removeClosedUnrefCheckpoints E vbid st =
     (let ((removed, newCheckpointCreated), kv') =
            removeClosedUnrefCheckpoints E (kvBucket st) vbid;
          st' = st\<lparr>kvBucket := kv',
                   itemsRemovedFromCheckpoints := itemsRemovedFromCheckpoints st + removed\<rparr>
      in if newCheckpointCreated
         then st'\<lparr>calls := calls st' @ [EvNotifyVBConnections vbid (getHighSeqno E kv' vbid)]\<rparr>
         else st')"

section \<open>Reading the record of calls\<close>

text \<open>
  The partitions expelled and the partitions asked for their droppable cursors, in the
  order of the calls.
\<close>

fun expelledVBuckets :: "Event list \<Rightarrow> Vbid list" where
  "expelledVBuckets [] = []"
| "expelledVBuckets (EvExpel v r # es) = v # expelledVBuckets es"
| "expelledVBuckets (e # es) = expelledVBuckets es"

fun requestedVBuckets :: "Event list \<Rightarrow> Vbid list" where
  "requestedVBuckets [] = []"
| "requestedVBuckets (EvGetListOfCursorsToDrop v # es) = v # requestedVBuckets es"
| "requestedVBuckets (e # es) = requestedVBuckets es"

text \<open>
  The memory a stretch of calls reports as cleared: the estimates of its expels plus
  the unreferenced-checkpoint memory read after its successful cursor drops.
\<close>

fun cleared :: "Event list \<Rightarrow> size_t" where
  "cleared [] = 0"
| "cleared (EvExpel v r # es) = estimateOfFreeMemory r + cleared es"
| "cleared (EvUnrefMem v m # es) = m + cleared es"
| "cleared (e # es) = cleared es"

text \<open>
  \<open>belowTarget amt mc es\<close>: starting with \<open>mc\<close> bytes cleared, every expel, every
  request for cursors and every call of the hook in \<open>es\<close> is made while the memory
  cleared so far is still strictly below the target \<open>amt\<close>.
\<close>

fun belowTarget :: "size_t \<Rightarrow> size_t \<Rightarrow> Event list \<Rightarrow> bool" where
  "belowTarget amt mc [] = True"
| "belowTarget amt mc (EvExpel v r # es) =
     (mc < amt \<and> belowTarget amt (mc + estimateOfFreeMemory r) es)"
| "belowTarget amt mc (EvGetListOfCursorsToDrop v # es) = (mc < amt \<and> belowTarget amt mc es)"
| "belowTarget amt mc (EvHandleSlowStream v c b # es) = (mc < amt \<and> belowTarget amt mc es)"
| "belowTarget amt mc (EvUnrefMem v m # es) = belowTarget amt (mc + m) es"
| "belowTarget amt mc (e # es) = belowTarget amt mc es"

fun isExpelEvent :: "Event \<Rightarrow> bool" where
  "isExpelEvent (EvExpel v r) = True"
| "isExpelEvent e = False"

fun isCursorDropEvent :: "Event \<Rightarrow> bool" where
  "isCursorDropEvent (EvGetListOfCursorsToDrop v) = True"
| "isCursorDropEvent (EvHandleSlowStream v c b) = True"
| "isCursorDropEvent (EvUnrefMem v m) = True"
| "isCursorDropEvent e = False"

text \<open>
  Modelled from the spec: \<^verbatim>\<open>VBucketMap::getVBucketsSortedByChkMgrMem\<close> is called by the
  remover but defined outside the sources at hand. The specification (section 4.4,
  step 3) says: "Sort partitions by checkpoint memory usage, descending". The list it
  returns pairs each partition with its checkpoint memory usage; the contract is that
  these usages never increase along the list, in whatever state it is called.
\<close>

definition sortsByChkMgrMemDescending :: "'k Collaborators \<Rightarrow> bool" where
  "sortsByChkMgrMemDescending E \<longleftrightarrow>
     (\<forall>k. sorted_wrt (\<lambda>a b. snd b \<le> snd a) (getVBucketsSortedByChkMgrMem E k))"

section \<open>A small bucket to run the tasks on\<close>

text \<open>
  A bucket with three entries in its sorted partition list; the partitions listed in
  \<open>gone\<close> no longer exist when they are looked up. Partition 1 has two droppable
  cursors; dropping the first leaves 100 bytes of unreferenced checkpoints, dropping
  the second as well leaves 250 bytes (the 100 bytes included). The cursor of the other
  partitions belongs to a stream that cannot be switched to backfill.
\<close>

record DemoBucket =
  demoView :: MemoryView
  demoExpelEnabled :: bool
  demoDropped :: "Cursor list"
  demoExpelled :: "Vbid list"

definition demoCollaborators :: "Vbid list \<Rightarrow> DemoBucket Collaborators" where
  "demoCollaborators gone =
     \<lparr> getVBucketsSortedByChkMgrMem = (\<lambda>k. [(1, 600), (7, 200), (0, 100)]),
       getVBucket = (\<lambda>k v. v \<notin> set gone),
       expelUnreferencedCheckpointItems =
         (\<lambda>k v. (\<lparr>expelCount = 1, estimateOfFreeMemory = (if v = 1 then 40 else 10)\<rparr>,
                 k\<lparr>demoExpelled := demoExpelled k @ [v]\<rparr>)),
       getListOfCursorsToDrop =
         (\<lambda>k v. if v = 1 then [''replica-1'', ''replica-2''] else [''slow'']),
       handleSlowStream =
         (\<lambda>k v c. if c = ''slow'' then (False, k)
                  else (True, k\<lparr>demoDropped := demoDropped k @ [c]\<rparr>)),
       getChkMgrMemUsageOfUnrefCheckpoints =
         (\<lambda>k v. if v = 1
                then (case demoDropped k of [] \<Rightarrow> 0 | [c] \<Rightarrow> 100 | _ \<Rightarrow> 250)
                else 0),
       getMemoryView = demoView,
       isChkExpelEnabled = demoExpelEnabled,
       removeClosedUnrefCheckpoints = (\<lambda>k v. ((3, v = 1), k)),
       getHighSeqno = (\<lambda>k v. 42) \<rparr>"

definition idleView :: MemoryView where
  "idleView =
     \<lparr> maxSize = 1000,
       cursorDroppingCheckpointMemUpperMark = 50,
       cursorDroppingCheckpointMemLowerMark = 30,
       vBucketsTotalCheckpointMemoryUsage = 600,
       estimatedTotalMemoryUsed = 100,
       mem_low_wat = 750,
       cursorDroppingUThreshold = 950,
       cursorDroppingLThreshold = 800 \<rparr>"

definition demoBucket :: "MemoryView \<Rightarrow> DemoBucket" where
  "demoBucket v =
     \<lparr> demoView = v, demoExpelEnabled = True, demoDropped = [], demoExpelled = [] \<rparr>"

definition demoEngine :: "MemoryView \<Rightarrow> DemoBucket Engine" where
  "demoEngine v =
     \<lparr> kvBucket = demoBucket v,
       cursorsDropped = 0,
       cursorMemoryFreed = 0,
       itemsRemovedFromCheckpoints = 0,
       available = True,
       calls = [] \<rparr>"

section \<open>Checkpoint manager: the log and its cursors\<close>

text \<open>
  Modelled from the spec: \<^verbatim>\<open>checkpoint_manager.h\<close> declares \<^verbatim>\<open>getItemsForCursor\<close>,
  \<^verbatim>\<open>getNextItemsForCursor\<close> and \<^verbatim>\<open>registerCursorBySeqno\<close>, but their bodies
  (\<^verbatim>\<open>checkpoint_manager.cc\<close>) and the types of \<^verbatim>\<open>checkpoint.h\<close>, \<^verbatim>\<open>checkpoint_types.h\<close> and
  \<^verbatim>\<open>cursor.h\<close> are not among the sources at hand. The data follows section 3 of the
  specification: an item has a key, a sequence number and an operation kind from a
  closed set; the kinds \<open>checkpoint_start\<close>, \<open>checkpoint_end\<close>, \<open>set_vbucket_state\<close> and
  \<open>empty\<close> are the meta items. Sequence numbers are 64-bit and compared as unsigned, as
  the \<^verbatim>\<open>uint64_t startBySeqno\<close> of the header is.
\<close>

datatype CheckpointType = Memory | Disk

datatype queue_op =
    mutation | deletion | expiration
  | pending_sync_write | commit_sync_write | abort_sync_write
  | set_vbucket_state | checkpoint_start | checkpoint_end | empty_op

fun isMetaOp :: "queue_op \<Rightarrow> bool" where
  "isMetaOp set_vbucket_state = True"
| "isMetaOp checkpoint_start = True"
| "isMetaOp checkpoint_end = True"
| "isMetaOp empty_op = True"
| "isMetaOp other = False"

record queued_item =
  qiKey :: string
  bySeqno :: "64 word"
  operation :: queue_op

definition isCheckPointMetaItem :: "queued_item \<Rightarrow> bool" where
  "isCheckPointMetaItem qi = isMetaOp (operation qi)"

text \<open>The number of non-meta items in a run of items.\<close>

definition numNonMeta :: "queued_item list \<Rightarrow> nat" where
  "numNonMeta qis = length (filter (\<lambda>qi. \<not> isCheckPointMetaItem qi) qis)"

text \<open>
  Modelled from the spec: a checkpoint (section 3) with its id, its type, its snapshot
  range, the optional high completed seqno and its items in order. The list of a
  manager is ordered from the oldest checkpoint to the open one, which is the last.
\<close>

record Checkpoint =
  ckptId :: "64 word"
  ckptType :: CheckpointType
  snapStart :: "64 word"
  snapEnd :: "64 word"
  highCompletedSeqno :: "64 word option"
  ckptItems :: "queued_item list"

text \<open>
  Modelled from the spec: a cursor is a position, the checkpoint it is in (as an index
  into the manager's list) and the number of items of that checkpoint it has already
  passed (section 9: "each cursor stores an index (checkpoint id + item offset)").
\<close>

record CursorPos =
  curCheckpoint :: nat
  curOffset :: nat

text \<open>
  \<^verbatim>\<open>CheckpointSnapshotRange\<close> and \<^verbatim>\<open>ItemsForCursor\<close> as the header declares them, without
  \<^verbatim>\<open>maxDeletedRevSeqno\<close>, about which the specification says nothing.
\<close>

record CheckpointSnapshotRange =
  rangeStart :: "64 word"
  rangeEnd :: "64 word"
  rangeHighCompletedSeqno :: "64 word option"

record ItemsForCursor =
  ranges :: "CheckpointSnapshotRange list"
  moreAvailable :: bool
  checkpointType :: CheckpointType

definition snapshotRangeOf :: "Checkpoint \<Rightarrow> CheckpointSnapshotRange" where
  "snapshotRangeOf c =
     \<lparr> rangeStart = snapStart c, rangeEnd = snapEnd c,
       rangeHighCompletedSeqno = highCompletedSeqno c \<rparr>"

text \<open>
  The limit of a drain: \<open>None\<close> for the unbounded \<^verbatim>\<open>getNextItemsForCursor\<close>, \<open>Some l\<close> for
  the bounded \<^verbatim>\<open>getItemsForCursor\<close>. It is reached "at or after \<open>approxLimit\<close> non-meta
  items".
\<close>

fun limitReached :: "nat option \<Rightarrow> nat \<Rightarrow> bool" where
  "limitReached None n = False"
| "limitReached (Some l) n = (l \<le> n)"

text \<open>
  Modelled from the spec (section 4.2, \<^verbatim>\<open>getNextItemsForCursor\<close> and its bounded
  variant): "Fetch items starting at the cursor's current position. Walk forward
  within the current checkpoint; when reaching \<open>checkpoint_end\<close>, advance the cursor
  into the next checkpoint only if the next checkpoint has the same type as the
  current one. Otherwise stop. For the bounded variant, stop after the first checkpoint
  boundary at or after \<open>approxLimit\<close> non-meta items."

  \<open>walk lim ty n j qis cps\<close> walks item by item: \<open>ty\<close> is the type of the checkpoint the
  drain started in, \<open>n\<close> the number of non-meta items fetched so far, \<open>j\<close> the cursor's
  offset in its checkpoint, \<open>qis\<close> the items of that checkpoint still ahead and \<open>cps\<close>
  the checkpoints after it. The limit and the type are looked at only when the items
  of the checkpoint are used up. The result is the items fetched, the number of
  checkpoints the cursor advanced by, its final offset, and \<open>moreAvailable\<close>, which is
  false exactly when the walk ends at the end of the last (the open) checkpoint.
\<close>

fun walk ::
  "nat option \<Rightarrow> CheckpointType \<Rightarrow> nat \<Rightarrow> nat \<Rightarrow> queued_item list \<Rightarrow> Checkpoint list
     \<Rightarrow> queued_item list \<times> nat \<times> nat \<times> bool" where
  "walk lim ty n j (qi # qis) cps =
     (case walk lim ty (if isCheckPointMetaItem qi then n else Suc n) (Suc j) qis cps of
        (fetched, k, j', avail) \<Rightarrow> (qi # fetched, k, j', avail))"
| "walk lim ty n j [] [] = ([], 0, j, False)"
| "walk lim ty n j [] (c # cps) =
     (if limitReached lim n \<or> ckptType c \<noteq> ty then ([], 0, j, True)
      else (case walk lim ty n 0 (ckptItems c) cps of
              (fetched, k, j', avail) \<Rightarrow> (fetched, Suc k, j', avail)))"

text \<open>
  Modelled from the spec: a drain that stopped at a checkpoint boundary leaves the
  cursor at the end of that checkpoint, and "the caller will make a second call which
  yields the next-type checkpoint on its own". So a drain whose cursor stands at the
  end of a checkpoint that is not the last one starts in the next checkpoint.
\<close>

definition drainStart :: "Checkpoint list \<Rightarrow> CursorPos \<Rightarrow> CursorPos" where
  "drainStart cl cur =
     (if length (ckptItems (cl ! curCheckpoint cur)) \<le> curOffset cur \<and>
         Suc (curCheckpoint cur) < length cl
      then \<lparr>curCheckpoint = Suc (curCheckpoint cur), curOffset = 0\<rparr>
      else cur)"

text \<open>
  Modelled from the spec: the drain itself, for a cursor that is in the list (a cursor
  whose checkpoint is not in the list gets nothing and stays where it is). The items
  fetched are appended to \<open>items\<close>; the result carries the snapshot range of every
  checkpoint visited and the type of the checkpoints fetched.
\<close>

definition drainCursor ::
  "nat option \<Rightarrow> Checkpoint list \<Rightarrow> CursorPos \<Rightarrow> queued_item list
     \<Rightarrow> queued_item list \<times> CursorPos \<times> ItemsForCursor" where
  "drainCursor lim cl cursor items =
     (if length cl \<le> curCheckpoint cursor
      then (items, cursor, \<lparr>ranges = [], moreAvailable = False, checkpointType = Memory\<rparr>)
      else
        (let start = drainStart cl cursor;
             i = curCheckpoint start;
             c = cl ! i
         in case walk lim (ckptType c) 0 (curOffset start)
                   (drop (curOffset start) (ckptItems c)) (drop (Suc i) cl) of
              (fetched, k, j', avail) \<Rightarrow>
                (items @ fetched,
                 \<lparr>curCheckpoint = i + k, curOffset = j'\<rparr>,
                 \<lparr>ranges = map snapshotRangeOf (take (Suc k) (drop i cl)),
                  moreAvailable = avail,
                  checkpointType = ckptType c\<rparr>)))"

text \<open>
  Modelled from the spec: \<^verbatim>\<open>getItemsForCursor\<close> is the bounded variant, with
  \<open>approxLimit\<close> counted in non-meta items, and \<^verbatim>\<open>getNextItemsForCursor\<close> the drain without
  a limit.
\<close>

definition getItemsForCursor ::
  "Checkpoint list \<Rightarrow> CursorPos \<Rightarrow> queued_item list \<Rightarrow> size_t
     \<Rightarrow> queued_item list \<times> CursorPos \<times> ItemsForCursor" where
  "getItemsForCursor cl cursor items approxLimit =
     drainCursor (Some (unat approxLimit)) cl cursor items"

definition getNextItemsForCursor ::
  "Checkpoint list \<Rightarrow> CursorPos \<Rightarrow> queued_item list
     \<Rightarrow> queued_item list \<times> CursorPos \<times> ItemsForCursor" where
  "getNextItemsForCursor cl cursor items = drainCursor None cl cursor items"

text \<open>
  The items between a position \<open>start\<close> and the end of the checkpoint with index \<open>i\<close>:
  what is left of the checkpoint of \<open>start\<close>, then every checkpoint after it up to \<open>i\<close>,
  each one whole.
\<close>

definition itemsThrough :: "Checkpoint list \<Rightarrow> CursorPos \<Rightarrow> nat \<Rightarrow> queued_item list" where
  "itemsThrough cl start i =
     drop (curOffset start) (ckptItems (cl ! curCheckpoint start)) @
     concat (map ckptItems (take (i - curCheckpoint start) (drop (Suc (curCheckpoint start)) cl)))"

text \<open>
  A log of three checkpoints: two closed memory checkpoints with two mutations each,
  then an open disk checkpoint with one.
\<close>

definition demoItem :: "queue_op \<Rightarrow> 64 word \<Rightarrow> queued_item" where
  "demoItem opn s = \<lparr>qiKey = ''k'', bySeqno = s, operation = opn\<rparr>"

definition demoLog :: "Checkpoint list" where
  "demoLog =
     [\<lparr>ckptId = 1, ckptType = Memory, snapStart = 1, snapEnd = 2, highCompletedSeqno = None,
       ckptItems = [demoItem checkpoint_start 1, demoItem mutation 1, demoItem mutation 2,
                    demoItem checkpoint_end 3]\<rparr>,
      \<lparr>ckptId = 2, ckptType = Memory, snapStart = 3, snapEnd = 4, highCompletedSeqno = None,
       ckptItems = [demoItem checkpoint_start 3, demoItem mutation 3, demoItem mutation 4,
                    demoItem checkpoint_end 5]\<rparr>,
      \<lparr>ckptId = 3, ckptType = Disk, snapStart = 5, snapEnd = 9, highCompletedSeqno = Some 5,
       ckptItems = [demoItem checkpoint_start 5, demoItem mutation 5]\<rparr>]"

section \<open>Checkpoint manager: registering a cursor\<close>



text \<open>The index of the first element of a list that satisfies a predicate.\<close>

fun firstIndex :: "('a \<Rightarrow> bool) \<Rightarrow> 'a list \<Rightarrow> nat option" where
  "firstIndex P [] = None"
| "firstIndex P (x # xs) = (if P x then Some 0 else map_option Suc (firstIndex P xs))"





section \<open>Results about the trigger and the target\<close>

lemma fst_isReduction:
  "fst (isReductionInCheckpointMemoryNeeded m) \<longleftrightarrow>
     memUsedExceedsCursorDroppingUpperMark m \<or> ckptMemExceedsCheckpointMemoryThreshold m"
  by (simp add: isReductionInCheckpointMemoryNeeded_def
        memUsedExceedsCursorDroppingUpperMark_def
        ckptMemExceedsCheckpointMemoryThreshold_def Let_def)

lemma snd_isReduction:
  "snd (isReductionInCheckpointMemoryNeeded m) =
     (if ckptMemExceedsCheckpointMemoryThreshold m
      then estimatedTotalMemoryUsed m -
             (maxSize m * cursorDroppingCheckpointMemLowerMark m) div 100
      else if memUsedExceedsCursorDroppingUpperMark m
      then estimatedTotalMemoryUsed m - cursorDroppingLThreshold m
      else 0)"
  by (simp add: isReductionInCheckpointMemoryNeeded_def
        memUsedExceedsCursorDroppingUpperMark_def
        ckptMemExceedsCheckpointMemoryThreshold_def Let_def)

text \<open>
  On machine integers the percentage of the quota is the truncated quotient of the
  product, and the product is that of the natural numbers as long as it fits into 64
  bits.
\<close>

lemma percent_of_quota_unat:
  fixes q p :: size_t
  assumes "unat q * unat p < 2 ^ 64"
  shows "unat ((q * p) div 100) = (unat q * unat p) div 100"
proof -
  have "unat (q * p) = unat q * unat p"
    using assms by (simp add: unat_mult_lem [THEN iffD1])
  then show ?thesis
    by (simp add: unat_div)
qed

lemma memUsedExceeds_unat:
  "memUsedExceedsCursorDroppingUpperMark m \<longleftrightarrow>
     unat (cursorDroppingUThreshold m) < unat (estimatedTotalMemoryUsed m)"
  by (simp add: memUsedExceedsCursorDroppingUpperMark_def word_less_nat_alt)

lemma ckptMemExceeds_unat:
  assumes "unat (maxSize m) * unat (cursorDroppingCheckpointMemUpperMark m) < 2 ^ 64"
  shows "ckptMemExceedsCheckpointMemoryThreshold m \<longleftrightarrow>
     unat (mem_low_wat m) \<le> unat (estimatedTotalMemoryUsed m) \<and>
     (unat (maxSize m) * unat (cursorDroppingCheckpointMemUpperMark m)) div 100
       \<le> unat (vBucketsTotalCheckpointMemoryUsage m)"
  using percent_of_quota_unat [OF assms]
  by (simp add: ckptMemExceedsCheckpointMemoryThreshold_def word_le_nat_alt)




text \<open>
  C3 as stated fails where both triggers hold: the run is triggered by total memory
  (960 is above the upper threshold 950), yet the target is not the memory used minus
  the \<open>cursor_dropping_lower_mark\<close> threshold (960 - 800 = 160) but 660, the memory used
  minus 30 percent of the quota.
\<close>

theorem recovery_target_counterexample:
  "fst (isReductionInCheckpointMemoryNeeded bothTriggersView) \<and>
   needBecauseTotalMem bothTriggersView \<and>
   unat (snd (isReductionInCheckpointMemoryNeeded bothTriggersView)) \<noteq>
     unat (estimatedTotalMemoryUsed bothTriggersView) -
     unat (cursorDroppingLThreshold bothTriggersView)"
  by (simp add: isReductionInCheckpointMemoryNeeded_def needBecauseTotalMem_def
        bothTriggersView_def Let_def)

text \<open>
  C3, amended. Let the products of the quota with the two checkpoint-memory marks fit
  into 64 bits, and let recovery be triggered. If the checkpoint-memory trigger holds
  (memory used at least the low watermark and checkpoint memory at least
  \<open>(quota * upper mark) div 100\<close>), whether or not the total-memory trigger holds as
  well, the target is the memory used minus \<open>(quota * lower mark) div 100\<close>, provided
  the memory used is at least that limit. If it does not hold, so that the run is
  triggered by total memory alone, the target is the memory used minus the
  \<open>cursor_dropping_lower_mark\<close> threshold, provided the memory used is at least that
  threshold. All of this is arithmetic on natural numbers, division rounding down.
\<close>

theorem recovery_target:
  assumes "unat (maxSize m) * unat (cursorDroppingCheckpointMemUpperMark m) < 2 ^ 64"
      and "unat (maxSize m) * unat (cursorDroppingCheckpointMemLowerMark m) < 2 ^ 64"
      and "fst (isReductionInCheckpointMemoryNeeded m)"
  shows "(unat (mem_low_wat m) \<le> unat (estimatedTotalMemoryUsed m) \<and>
          (unat (maxSize m) * unat (cursorDroppingCheckpointMemUpperMark m)) div 100
             \<le> unat (vBucketsTotalCheckpointMemoryUsage m) \<longrightarrow>
          (unat (maxSize m) * unat (cursorDroppingCheckpointMemLowerMark m)) div 100
             \<le> unat (estimatedTotalMemoryUsed m) \<longrightarrow>
          unat (snd (isReductionInCheckpointMemoryNeeded m)) =
            unat (estimatedTotalMemoryUsed m) -
            (unat (maxSize m) * unat (cursorDroppingCheckpointMemLowerMark m)) div 100) \<and>
         (\<not> (unat (mem_low_wat m) \<le> unat (estimatedTotalMemoryUsed m) \<and>
             (unat (maxSize m) * unat (cursorDroppingCheckpointMemUpperMark m)) div 100
               \<le> unat (vBucketsTotalCheckpointMemoryUsage m)) \<longrightarrow>
          unat (cursorDroppingLThreshold m) \<le> unat (estimatedTotalMemoryUsed m) \<longrightarrow>
          unat (cursorDroppingUThreshold m) < unat (estimatedTotalMemoryUsed m) \<and>
          unat (snd (isReductionInCheckpointMemoryNeeded m)) =
            unat (estimatedTotalMemoryUsed m) - unat (cursorDroppingLThreshold m))"
proof -
  let ?limit = "(maxSize m * cursorDroppingCheckpointMemLowerMark m) div 100"
  have lim: "unat ?limit =
      (unat (maxSize m) * unat (cursorDroppingCheckpointMemLowerMark m)) div 100"
    by (rule percent_of_quota_unat [OF assms(2)])
  note trig = ckptMemExceeds_unat [OF assms(1)]
  have a: "unat (snd (isReductionInCheckpointMemoryNeeded m)) =
            unat (estimatedTotalMemoryUsed m) -
            (unat (maxSize m) * unat (cursorDroppingCheckpointMemLowerMark m)) div 100"
    if t: "ckptMemExceedsCheckpointMemoryThreshold m"
    and le: "(unat (maxSize m) * unat (cursorDroppingCheckpointMemLowerMark m)) div 100
             \<le> unat (estimatedTotalMemoryUsed m)"
  proof -
    from le lim have "?limit \<le> estimatedTotalMemoryUsed m"
      by (simp add: word_le_nat_alt)
    then have "unat (estimatedTotalMemoryUsed m - ?limit) =
               unat (estimatedTotalMemoryUsed m) - unat ?limit"
      by (rule unat_sub)
    with t lim show ?thesis by (simp add: snd_isReduction)
  qed
  have b: "unat (cursorDroppingUThreshold m) < unat (estimatedTotalMemoryUsed m) \<and>
          unat (snd (isReductionInCheckpointMemoryNeeded m)) =
            unat (estimatedTotalMemoryUsed m) - unat (cursorDroppingLThreshold m)"
    if t: "\<not> ckptMemExceedsCheckpointMemoryThreshold m"
    and le: "unat (cursorDroppingLThreshold m) \<le> unat (estimatedTotalMemoryUsed m)"
  proof -
    from t assms(3) have u: "memUsedExceedsCursorDroppingUpperMark m"
      by (simp add: fst_isReduction)
    from le have "cursorDroppingLThreshold m \<le> estimatedTotalMemoryUsed m"
      by (simp add: word_le_nat_alt)
    then have "unat (estimatedTotalMemoryUsed m - cursorDroppingLThreshold m) =
               unat (estimatedTotalMemoryUsed m) - unat (cursorDroppingLThreshold m)"
      by (rule unat_sub)
    with t u show ?thesis by (simp add: snd_isReduction memUsedExceeds_unat)
  qed
  from a b show ?thesis unfolding trig by blast
qed

theorem recovery_target_witness:
  "unat (maxSize bothTriggersView) * unat (cursorDroppingCheckpointMemUpperMark bothTriggersView)
     < 2 ^ 64 \<and>
   unat (maxSize bothTriggersView) * unat (cursorDroppingCheckpointMemLowerMark bothTriggersView)
     < 2 ^ 64 \<and>
   fst (isReductionInCheckpointMemoryNeeded bothTriggersView) \<and>
   unat (mem_low_wat bothTriggersView) \<le> unat (estimatedTotalMemoryUsed bothTriggersView) \<and>
   (unat (maxSize bothTriggersView) *
      unat (cursorDroppingCheckpointMemUpperMark bothTriggersView)) div 100
     \<le> unat (vBucketsTotalCheckpointMemoryUsage bothTriggersView) \<and>
   (unat (maxSize bothTriggersView) *
      unat (cursorDroppingCheckpointMemLowerMark bothTriggersView)) div 100
     \<le> unat (estimatedTotalMemoryUsed bothTriggersView) \<and>
   unat (snd (isReductionInCheckpointMemoryNeeded bothTriggersView)) = 960 - (1000 * 30) div 100"
proof -
  have o1: "unat (maxSize bothTriggersView) *
              unat (cursorDroppingCheckpointMemUpperMark bothTriggersView) < 2 ^ 64"
    by (simp add: bothTriggersView_def)
  have o2: "unat (maxSize bothTriggersView) *
              unat (cursorDroppingCheckpointMemLowerMark bothTriggersView) < 2 ^ 64"
    by (simp add: bothTriggersView_def)
  have t: "fst (isReductionInCheckpointMemoryNeeded bothTriggersView)"
    by (simp add: isReductionInCheckpointMemoryNeeded_def bothTriggersView_def Let_def)
  have l: "unat (mem_low_wat bothTriggersView) \<le> unat (estimatedTotalMemoryUsed bothTriggersView)"
    by (simp add: bothTriggersView_def)
  have c: "(unat (maxSize bothTriggersView) *
      unat (cursorDroppingCheckpointMemUpperMark bothTriggersView)) div 100
     \<le> unat (vBucketsTotalCheckpointMemoryUsage bothTriggersView)"
    by (simp add: bothTriggersView_def)
  have u: "(unat (maxSize bothTriggersView) *
      unat (cursorDroppingCheckpointMemLowerMark bothTriggersView)) div 100
     \<le> unat (estimatedTotalMemoryUsed bothTriggersView)"
    by (simp add: bothTriggersView_def)
  from recovery_target [OF o1 o2 t] l c u
  have "unat (snd (isReductionInCheckpointMemoryNeeded bothTriggersView)) =
          unat (estimatedTotalMemoryUsed bothTriggersView) -
          (unat (maxSize bothTriggersView) *
             unat (cursorDroppingCheckpointMemLowerMark bothTriggersView)) div 100"
    by blast
  then have "unat (snd (isReductionInCheckpointMemoryNeeded bothTriggersView)) =
               960 - (1000 * 30) div 100"
    by (simp add: bothTriggersView_def)
  with o1 o2 t l c u show ?thesis by (intro conjI)
qed

section \<open>Results about the two loops of the recovery\<close>

lemma dropCursors_met:
  "amt \<le> mc \<Longrightarrow> dropCursors E vbid amt cs (mc, st) = (mc, st)"
  by (cases cs) (simp_all add: not_less [symmetric])

lemma dropCursors_append:
  "dropCursors E vbid amt (xs @ ys) (mc, st) =
     dropCursors E vbid amt ys (dropCursors E vbid amt xs (mc, st))"
proof (induction xs arbitrary: mc st)
  case Nil
  show ?case by simp
next
  case (Cons c xs)
  show ?case
  proof (cases "mc < amt")
    case True
    then show ?thesis
      by (simp add: Cons.IH Let_def split: prod.split)
  next
    case False
    then show ?thesis
      by (simp add: dropCursors_met)
  qed
qed

lemma recoverVBuckets_met:
  "amt \<le> mc \<Longrightarrow> recoverVBuckets E mech amt vbs (mc, st) = (mc, st)"
  by (cases vbs) simp_all

lemma recoverVBuckets_append:
  "recoverVBuckets E mech amt (xs @ ys) s =
     recoverVBuckets E mech amt ys (recoverVBuckets E mech amt xs s)"
proof (induction xs arbitrary: s)
  case Nil
  show ?case by (cases s) simp
next
  case (Cons it xs)
  obtain mc st where s: "s = (mc, st)" by (cases s)
  show ?case
  proof (cases "amt \<le> mc")
    case True
    then show ?thesis
      by (simp add: s recoverVBuckets_met)
  next
    case False
    then show ?thesis
      using Cons.IH by (cases mech) (simp_all add: s Let_def split: prod.split)
  qed
qed

text \<open>
  When the expel pass reaches a partition that exists while the target is not met, it
  expels that partition and goes on with the rest of the list.
\<close>

lemma expel_pass_reaches:
  assumes "recoverVBuckets E checkpointExpel amt before s = (mc1, st1)"
      and "mc1 < amt"
      and "getVBucket E (kvBucket st1) (fst it)"
      and "expelUnreferencedCheckpointItems E (kvBucket st1) (fst it) = (r, kv')"
  shows "recoverVBuckets E checkpointExpel amt (before @ it # rest) s =
           recoverVBuckets E checkpointExpel amt rest
             (mc1 + estimateOfFreeMemory r,
              st1\<lparr>kvBucket := kv', calls := calls st1 @ [EvExpel (fst it) r]\<rparr>)"
proof -
  from assms(2) have "\<not> amt \<le> mc1" by simp
  with assms show ?thesis
    by (simp add: recoverVBuckets_append)
qed



section \<open>Results about the record of calls\<close>

lemma expelledVBuckets_append:
  "expelledVBuckets (xs @ ys) = expelledVBuckets xs @ expelledVBuckets ys"
  by (induction xs rule: expelledVBuckets.induct) simp_all

lemma requestedVBuckets_append:
  "requestedVBuckets (xs @ ys) = requestedVBuckets xs @ requestedVBuckets ys"
  by (induction xs rule: requestedVBuckets.induct) simp_all

lemma cleared_append: "cleared (xs @ ys) = cleared xs + cleared ys"
  by (induction xs rule: cleared.induct) simp_all

lemma belowTarget_append:
  "belowTarget amt mc (xs @ ys) \<longleftrightarrow>
     belowTarget amt mc xs \<and> belowTarget amt (mc + cleared xs) ys"
  by (induction amt mc xs rule: belowTarget.induct) (simp_all add: add.assoc)

lemma belowTarget_after_each_expel:
  assumes "belowTarget amt mc (pre @ post)" and "list_all isExpelEvent post" and "post \<noteq> []"
  shows "mc + cleared pre < amt"
proof -
  from assms(3) obtain e post' where p: "post = e # post'" by (cases post) auto
  with assms(2) obtain v r where e: "e = EvExpel v r" by (cases e) auto
  from assms(1) have "belowTarget amt (mc + cleared pre) post"
    by (simp add: belowTarget_append)
  then show ?thesis by (simp add: p e)
qed

lemma sorted_wrt_subseq:
  "subseq xs ys \<Longrightarrow> sorted_wrt P ys \<Longrightarrow> sorted_wrt P xs"
proof (induction rule: list_emb.induct)
  case (list_emb_Nil ys)
  show ?case by simp
next
  case (list_emb_Cons xs ys y)
  then show ?case by simp
next
  case (list_emb_Cons2 x y xs ys)
  then have "set xs \<subseteq> set ys"
    by (auto dest: list_emb_set)
  with list_emb_Cons2 show ?case by auto
qed

text \<open>What one run of the inner loop adds to the record.\<close>

lemma dropCursors_log:
  "dropCursors E v amt cs (mc, st) = (mc', st') \<Longrightarrow>
   \<exists>evs. calls st' = calls st @ evs \<and> list_all isCursorDropEvent evs \<and>
         requestedVBuckets evs = [] \<and> mc' = mc + cleared evs \<and> belowTarget amt mc evs"
proof (induction cs arbitrary: mc st)
  case Nil
  then show ?case by simp
next
  case (Cons c cs)
  show ?case
  proof (cases "mc < amt")
    case False
    with Cons.prems show ?thesis by simp
  next
    case True
    obtain ok kv' where h: "handleSlowStream E (kvBucket st) v c = (ok, kv')"
      by (cases "handleSlowStream E (kvBucket st) v c")
    show ?thesis
    proof (cases ok)
      case True
      define u where "u = getChkMgrMemUsageOfUnrefCheckpoints E kv' v"
      define st1 where "st1 = st\<lparr>kvBucket := kv',
                  cursorsDropped := cursorsDropped st + 1,
                  cursorMemoryFreed := cursorMemoryFreed st + u,
                  calls := calls st @ [EvHandleSlowStream v c True, EvUnrefMem v u]\<rparr>"
      from Cons.prems \<open>mc < amt\<close> h True
      have "dropCursors E v amt cs (mc + u, st1) = (mc', st')"
        by (simp add: u_def st1_def Let_def)
      from Cons.IH [OF this] obtain evs where
        e: "calls st' = calls st1 @ evs" "list_all isCursorDropEvent evs"
           "requestedVBuckets evs = []" "mc' = mc + u + cleared evs"
           "belowTarget amt (mc + u) evs"
        by blast
      let ?evs = "[EvHandleSlowStream v c True, EvUnrefMem v u] @ evs"
      have "calls st' = calls st @ ?evs"
        using e(1) by (simp add: st1_def)
      moreover have "list_all isCursorDropEvent ?evs" using e(2) by simp
      moreover have "requestedVBuckets ?evs = []" using e(3) by simp
      moreover have "mc' = mc + cleared ?evs" using e(4) by (simp add: add.assoc)
      moreover have "belowTarget amt mc ?evs" using e(5) \<open>mc < amt\<close> by simp
      ultimately show ?thesis by blast
    next
      case False
      define st1 where "st1 = st\<lparr>kvBucket := kv',
                  calls := calls st @ [EvHandleSlowStream v c False]\<rparr>"
      from Cons.prems \<open>mc < amt\<close> h False
      have "dropCursors E v amt cs (mc, st1) = (mc', st')"
        by (simp add: st1_def Let_def)
      from Cons.IH [OF this] obtain evs where
        e: "calls st' = calls st1 @ evs" "list_all isCursorDropEvent evs"
           "requestedVBuckets evs = []" "mc' = mc + cleared evs"
           "belowTarget amt mc evs"
        by blast
      let ?evs = "[EvHandleSlowStream v c False] @ evs"
      have "calls st' = calls st @ ?evs"
        using e(1) by (simp add: st1_def)
      moreover have "list_all isCursorDropEvent ?evs" using e(2) by simp
      moreover have "requestedVBuckets ?evs = []" using e(3) by simp
      moreover have "mc' = mc + cleared ?evs" using e(4) by simp
      moreover have "belowTarget amt mc ?evs" using e(5) \<open>mc < amt\<close> by simp
      ultimately show ?thesis by blast
    qed
  qed
qed

text \<open>
  What the expel pass adds to the record: expels only, of partitions in the order of
  the list, each made while the target is not met. If no lookup ever yields null, the
  partitions expelled are the first \<open>n\<close> of the list, and the pass stops before the end
  of the list only with the target met.
\<close>

lemma expel_pass_log:
  "recoverVBuckets E checkpointExpel amt L (mc, st) = (mc', st') \<Longrightarrow>
   \<exists>evs ps. calls st' = calls st @ evs \<and> list_all isExpelEvent evs \<and>
      subseq ps L \<and> expelledVBuckets evs = map fst ps \<and>
      mc' = mc + cleared evs \<and> belowTarget amt mc evs \<and>
      ((\<forall>k v. getVBucket E k v) \<longrightarrow>
         (\<exists>n. ps = take n L \<and> (n < length L \<longrightarrow> amt \<le> mc')))"
proof (induction L arbitrary: mc st)
  case Nil
  then have "calls st' = calls st @ [] \<and> list_all isExpelEvent [] \<and>
      subseq [] ([] :: (Vbid \<times> size_t) list) \<and>
      expelledVBuckets [] = map fst ([] :: (Vbid \<times> size_t) list) \<and>
      mc' = mc + cleared [] \<and> belowTarget amt mc [] \<and>
      ((\<forall>k v. getVBucket E k v) \<longrightarrow>
         (\<exists>n. ([] :: (Vbid \<times> size_t) list) = take n [] \<and>
              (n < length ([] :: (Vbid \<times> size_t) list) \<longrightarrow> amt \<le> mc')))"
    by simp
  then show ?case by blast
next
  case (Cons it L)
  show ?case
  proof (cases "amt \<le> mc")
    case True
    with Cons.prems have m: "mc' = mc" "st' = st" by simp_all
    have "[] = take 0 (it # L) \<and> (0 < length (it # L) \<longrightarrow> amt \<le> mc')"
      using True m by simp
    then have "\<exists>n. [] = take n (it # L) \<and> (n < length (it # L) \<longrightarrow> amt \<le> mc')"
      by blast
    with m have "calls st' = calls st @ [] \<and> list_all isExpelEvent [] \<and>
      subseq [] (it # L) \<and> expelledVBuckets [] = map fst ([] :: (Vbid \<times> size_t) list) \<and>
      mc' = mc + cleared [] \<and> belowTarget amt mc [] \<and>
      ((\<forall>k v. getVBucket E k v) \<longrightarrow>
         (\<exists>n. [] = take n (it # L) \<and> (n < length (it # L) \<longrightarrow> amt \<le> mc')))"
      by simp
    then show ?thesis by blast
  next
    case False
    then have lt: "mc < amt" by simp
    show ?thesis
    proof (cases "getVBucket E (kvBucket st) (fst it)")
      case False
      with Cons.prems \<open>\<not> amt \<le> mc\<close>
      have "recoverVBuckets E checkpointExpel amt L (mc, st) = (mc', st')"
        by simp
      from Cons.IH [OF this] obtain evs ps where
        e: "calls st' = calls st @ evs" "list_all isExpelEvent evs" "subseq ps L"
           "expelledVBuckets evs = map fst ps" "mc' = mc + cleared evs"
           "belowTarget amt mc evs"
        by blast
      from e(3) have "subseq ps (it # L)" by (rule list_emb_Cons)
      moreover have "(\<forall>k v. getVBucket E k v) \<longrightarrow>
         (\<exists>n. ps = take n (it # L) \<and> (n < length (it # L) \<longrightarrow> amt \<le> mc'))"
        using False by blast
      ultimately show ?thesis using e by blast
    next
      case True
      obtain r kv' where
        h: "expelUnreferencedCheckpointItems E (kvBucket st) (fst it) = (r, kv')"
        by (cases "expelUnreferencedCheckpointItems E (kvBucket st) (fst it)")
      define st1 where "st1 = st\<lparr>kvBucket := kv', calls := calls st @ [EvExpel (fst it) r]\<rparr>"
      from Cons.prems \<open>\<not> amt \<le> mc\<close> True h
      have "recoverVBuckets E checkpointExpel amt L (mc + estimateOfFreeMemory r, st1) =
              (mc', st')"
        by (simp add: st1_def)
      from Cons.IH [OF this] obtain evs ps where
        e: "calls st' = calls st1 @ evs" "list_all isExpelEvent evs" "subseq ps L"
           "expelledVBuckets evs = map fst ps"
           "mc' = mc + estimateOfFreeMemory r + cleared evs"
           "belowTarget amt (mc + estimateOfFreeMemory r) evs"
           "(\<forall>k v. getVBucket E k v) \<longrightarrow>
              (\<exists>n. ps = take n L \<and> (n < length L \<longrightarrow> amt \<le> mc'))"
        by blast
      let ?evs = "EvExpel (fst it) r # evs"
      have "calls st' = calls st @ ?evs" using e(1) by (simp add: st1_def)
      moreover have "list_all isExpelEvent ?evs" using e(2) by simp
      moreover have "subseq (it # ps) (it # L)" using e(3) by simp
      moreover have "expelledVBuckets ?evs = map fst (it # ps)" using e(4) by simp
      moreover have "mc' = mc + cleared ?evs" using e(5) by (simp add: add.assoc)
      moreover have "belowTarget amt mc ?evs" using e(6) lt by simp
      moreover have "(\<forall>k v. getVBucket E k v) \<longrightarrow>
         (\<exists>n. it # ps = take n (it # L) \<and> (n < length (it # L) \<longrightarrow> amt \<le> mc'))"
      proof
        assume "\<forall>k v. getVBucket E k v"
        with e(7) obtain n where n: "ps = take n L" "n < length L \<longrightarrow> amt \<le> mc'"
          by blast
        then have "it # ps = take (Suc n) (it # L) \<and>
                   (Suc n < length (it # L) \<longrightarrow> amt \<le> mc')"
          by simp
        then show "\<exists>n. it # ps = take n (it # L) \<and> (n < length (it # L) \<longrightarrow> amt \<le> mc')"
          by blast
      qed
      ultimately show ?thesis by blast
    qed
  qed
qed

text \<open>
  What the cursor-drop pass adds to the record: requests for cursors, hook calls and
  memory reads only, the partitions asked in the order of the list.
\<close>

lemma cursor_pass_log:
  "recoverVBuckets E cursorDrop amt L (mc, st) = (mc', st') \<Longrightarrow>
   \<exists>evs qs. calls st' = calls st @ evs \<and> list_all isCursorDropEvent evs \<and>
      subseq qs L \<and> requestedVBuckets evs = map fst qs \<and>
      mc' = mc + cleared evs \<and> belowTarget amt mc evs"
proof (induction L arbitrary: mc st)
  case Nil
  then have "calls st' = calls st @ [] \<and> list_all isCursorDropEvent [] \<and>
      subseq [] ([] :: (Vbid \<times> size_t) list) \<and>
      requestedVBuckets [] = map fst ([] :: (Vbid \<times> size_t) list) \<and>
      mc' = mc + cleared [] \<and> belowTarget amt mc []"
    by simp
  then show ?case by blast
next
  case (Cons it L)
  show ?case
  proof (cases "amt \<le> mc")
    case True
    with Cons.prems have "calls st' = calls st @ [] \<and> list_all isCursorDropEvent [] \<and>
      subseq [] (it # L) \<and> requestedVBuckets [] = map fst ([] :: (Vbid \<times> size_t) list) \<and>
      mc' = mc + cleared [] \<and> belowTarget amt mc []"
      by simp
    then show ?thesis by blast
  next
    case False
    then have lt: "mc < amt" by simp
    show ?thesis
    proof (cases "getVBucket E (kvBucket st) (fst it)")
      case False
      with Cons.prems \<open>\<not> amt \<le> mc\<close>
      have "recoverVBuckets E cursorDrop amt L (mc, st) = (mc', st')"
        by simp
      from Cons.IH [OF this] obtain evs qs where
        e: "calls st' = calls st @ evs" "list_all isCursorDropEvent evs" "subseq qs L"
           "requestedVBuckets evs = map fst qs" "mc' = mc + cleared evs"
           "belowTarget amt mc evs"
        by blast
      from e(3) have "subseq qs (it # L)" by (rule list_emb_Cons)
      with e show ?thesis by blast
    next
      case True
      define st0 where "st0 = st\<lparr>calls := calls st @ [EvGetListOfCursorsToDrop (fst it)]\<rparr>"
      obtain mc1 st1 where
        d: "dropCursors E (fst it) amt (getListOfCursorsToDrop E (kvBucket st) (fst it))
              (mc, st0) = (mc1, st1)"
        by (cases "dropCursors E (fst it) amt
                     (getListOfCursorsToDrop E (kvBucket st) (fst it)) (mc, st0)")
      from dropCursors_log [OF d] obtain evs1 where
        e1: "calls st1 = calls st0 @ evs1" "list_all isCursorDropEvent evs1"
            "requestedVBuckets evs1 = []" "mc1 = mc + cleared evs1"
            "belowTarget amt mc evs1"
        by blast
      from Cons.prems \<open>\<not> amt \<le> mc\<close> True d
      have "recoverVBuckets E cursorDrop amt L (mc1, st1) = (mc', st')"
        by (simp add: st0_def)
      from Cons.IH [OF this] obtain evs qs where
        e: "calls st' = calls st1 @ evs" "list_all isCursorDropEvent evs" "subseq qs L"
           "requestedVBuckets evs = map fst qs" "mc' = mc1 + cleared evs"
           "belowTarget amt mc1 evs"
        by blast
      let ?evs = "EvGetListOfCursorsToDrop (fst it) # evs1 @ evs"
      have "calls st' = calls st @ ?evs" using e(1) e1(1) by (simp add: st0_def)
      moreover have "list_all isCursorDropEvent ?evs" using e(2) e1(2) by simp
      moreover have "subseq (it # qs) (it # L)" using e(3) by simp
      moreover have "requestedVBuckets ?evs = map fst (it # qs)"
        using e(4) e1(3) by (simp add: requestedVBuckets_append)
      moreover have "mc' = mc + cleared ?evs"
        using e(5) e1(4) by (simp add: cleared_append add.assoc)
      moreover have "belowTarget amt mc ?evs"
        using e(6) e1(4,5) lt by (simp add: belowTarget_append)
      ultimately show ?thesis by blast
    qed
  qed
qed

lemma expelPhase_log:
  assumes "expelPhase E amt st = (rec, st1)"
  shows "\<exists>ex ps. calls st1 = calls st @ ex \<and> list_all isExpelEvent ex \<and>
     (\<not> isChkExpelEnabled E (kvBucket st) \<longrightarrow> ex = []) \<and>
     subseq ps (getVBucketsSortedByChkMgrMem E (kvBucket st)) \<and>
     expelledVBuckets ex = map fst ps \<and> rec = cleared ex \<and> belowTarget amt 0 ex \<and>
     (isChkExpelEnabled E (kvBucket st) \<and> (\<forall>k v. getVBucket E k v) \<longrightarrow>
        (\<exists>n. ps = take n (getVBucketsSortedByChkMgrMem E (kvBucket st)) \<and>
             (n < length (getVBucketsSortedByChkMgrMem E (kvBucket st)) \<longrightarrow> amt \<le> rec)))"
proof (cases "isChkExpelEnabled E (kvBucket st)")
  case True
  with assms have "recoverVBuckets E checkpointExpel amt
      (getVBucketsSortedByChkMgrMem E (kvBucket st)) (0, st) = (rec, st1)"
    by (simp add: expelPhase_def attemptMemoryRecovery_def)
  from expel_pass_log [OF this] True show ?thesis by auto
next
  case False
  with assms have "calls st1 = calls st @ [] \<and> list_all isExpelEvent [] \<and>
     (\<not> isChkExpelEnabled E (kvBucket st) \<longrightarrow> [] = ([] :: Event list)) \<and>
     subseq [] (getVBucketsSortedByChkMgrMem E (kvBucket st)) \<and>
     expelledVBuckets [] = map fst ([] :: (Vbid \<times> size_t) list) \<and>
     rec = cleared [] \<and> belowTarget amt 0 [] \<and>
     (isChkExpelEnabled E (kvBucket st) \<and> (\<forall>k v. getVBucket E k v) \<longrightarrow>
        (\<exists>n. [] = take n (getVBucketsSortedByChkMgrMem E (kvBucket st)) \<and>
             (n < length (getVBucketsSortedByChkMgrMem E (kvBucket st)) \<longrightarrow> amt \<le> rec)))"
    by (simp add: expelPhase_def)
  then show ?thesis by blast
qed

text \<open>
  C2. On a run that finds recovery needed, with target \<open>amt\<close>, the calls made are a
  stretch \<open>ex\<close> of expels, then a stretch \<open>dr\<close> of cursor-drop calls, then the scheduling
  of the visitor and the snooze. So the expel of a partition always precedes the cursor
  dropping on it, and in fact the expels of all partitions do.
  \<^item> \<open>ex\<close> is empty if expel is disabled. The partitions expelled are entries \<open>ps\<close> of the
    sorted partition list, in the order of that list; under the contract of the sort
    their checkpoint memory usage never increases along \<open>ps\<close>. Each expel is made while
    the estimates of the expels before it sum to less than the target. If expel is
    enabled and no lookup yields null, the partitions expelled are the first \<open>n\<close> of the
    list, and the pass stops before the end of the list only with the target met.
  \<^item> The partitions asked for their droppable cursors are entries \<open>qs\<close> of the partition
    list sorted anew after the expels, in the order of that list. Every cursor-drop
    call is made while the memory credited by the cursor drops before it is below the
    target minus the sum of the estimates of the expels.
  \<^item> If any cursor-drop call is made, the target was still not met after each of the
    expels: after every one of them the estimates summed to less than the target.
\<close>

theorem run_expel_before_cursor_drop:
  assumes av: "available st"
      and need: "isReductionInCheckpointMemoryNeeded (getMemoryView E (kvBucket st)) = (True, amt)"
      and srt: "sortsByChkMgrMemDescending E"
  shows "\<exists>ex dr ps qs.
      calls (snd (run E st)) = calls st @ ex @ dr @ [EvVisitAsync, EvSnooze] \<and>
      list_all isExpelEvent ex \<and> list_all isCursorDropEvent dr \<and>
      (\<not> isChkExpelEnabled E (kvBucket st) \<longrightarrow> ex = []) \<and>
      subseq ps (getVBucketsSortedByChkMgrMem E (kvBucket st)) \<and>
      expelledVBuckets ex = map fst ps \<and> sorted_wrt (\<lambda>a b. snd b \<le> snd a) ps \<and>
      belowTarget amt 0 ex \<and>
      (isChkExpelEnabled E (kvBucket st) \<and> (\<forall>k v. getVBucket E k v) \<longrightarrow>
         (\<exists>n. ps = take n (getVBucketsSortedByChkMgrMem E (kvBucket st)) \<and>
              (n < length (getVBucketsSortedByChkMgrMem E (kvBucket st)) \<longrightarrow>
                 amt \<le> cleared ex))) \<and>
      subseq qs (getVBucketsSortedByChkMgrMem E
                   (kvBucket (snd (expelPhase E amt (st\<lparr>available := False\<rparr>))))) \<and>
      requestedVBuckets dr = map fst qs \<and> sorted_wrt (\<lambda>a b. snd b \<le> snd a) qs \<and>
      belowTarget (amt - cleared ex) 0 dr \<and>
      (dr \<noteq> [] \<longrightarrow> (\<forall>pre post. ex = pre @ post \<longrightarrow> cleared pre < amt))"
proof -
  define st0 where "st0 = st\<lparr>available := False\<rparr>"
  have k0: "kvBucket st0 = kvBucket st" and c0: "calls st0 = calls st"
    by (simp_all add: st0_def)
  obtain rec st1 where ep: "expelPhase E amt st0 = (rec, st1)"
    by (cases "expelPhase E amt st0")
  from expelPhase_log [OF ep] obtain ex ps where
    e: "calls st1 = calls st @ ex" "list_all isExpelEvent ex"
       "\<not> isChkExpelEnabled E (kvBucket st) \<longrightarrow> ex = []"
       "subseq ps (getVBucketsSortedByChkMgrMem E (kvBucket st))"
       "expelledVBuckets ex = map fst ps" "rec = cleared ex" "belowTarget amt 0 ex"
       "isChkExpelEnabled E (kvBucket st) \<and> (\<forall>k v. getVBucket E k v) \<longrightarrow>
          (\<exists>n. ps = take n (getVBucketsSortedByChkMgrMem E (kvBucket st)) \<and>
               (n < length (getVBucketsSortedByChkMgrMem E (kvBucket st)) \<longrightarrow> amt \<le> rec))"
    unfolding k0 c0 by blast
  have sps: "sorted_wrt (\<lambda>a b. snd b \<le> snd a) ps"
    using srt e(4) by (auto simp: sortsByChkMgrMemDescending_def intro: sorted_wrt_subseq)
  define st2 where "st2 = reduceMemory E amt st0"
  have r: "calls (snd (run E st)) = calls st2 @ [EvVisitAsync, EvSnooze]"
    using av need by (simp add: run_def Let_def st2_def st0_def)
  have "\<exists>dr qs. calls st2 = calls st1 @ dr \<and> list_all isCursorDropEvent dr \<and>
      subseq qs (getVBucketsSortedByChkMgrMem E (kvBucket st1)) \<and>
      requestedVBuckets dr = map fst qs \<and> belowTarget (amt - rec) 0 dr \<and>
      (dr \<noteq> [] \<longrightarrow> rec < amt)"
  proof (cases "rec < amt")
    case True
    obtain mc2 st2' where
      a: "attemptMemoryRecovery E cursorDrop (amt - rec) st1 = (mc2, st2')"
      by (cases "attemptMemoryRecovery E cursorDrop (amt - rec) st1")
    with True ep have s2: "st2 = st2'"
      by (simp add: st2_def reduceMemory_def)
    from a have "recoverVBuckets E cursorDrop (amt - rec)
        (getVBucketsSortedByChkMgrMem E (kvBucket st1)) (0, st1) = (mc2, st2')"
      by (simp add: attemptMemoryRecovery_def)
    from cursor_pass_log [OF this] True s2 show ?thesis by auto
  next
    case False
    with ep have "st2 = st1"
      by (simp add: st2_def reduceMemory_def)
    then have "calls st2 = calls st1 @ [] \<and> list_all isCursorDropEvent [] \<and>
      subseq [] (getVBucketsSortedByChkMgrMem E (kvBucket st1)) \<and>
      requestedVBuckets [] = map fst ([] :: (Vbid \<times> size_t) list) \<and>
      belowTarget (amt - rec) 0 [] \<and>
      ([] \<noteq> ([] :: Event list) \<longrightarrow> rec < amt)"
      by simp
    then show ?thesis by blast
  qed
  then obtain dr qs where
    d: "calls st2 = calls st1 @ dr" "list_all isCursorDropEvent dr"
       "subseq qs (getVBucketsSortedByChkMgrMem E (kvBucket st1))"
       "requestedVBuckets dr = map fst qs" "belowTarget (amt - rec) 0 dr"
       "dr \<noteq> [] \<longrightarrow> rec < amt"
    by blast
  have sqs: "sorted_wrt (\<lambda>a b. snd b \<le> snd a) qs"
    using srt d(3) by (auto simp: sortsByChkMgrMemDescending_def intro: sorted_wrt_subseq)
  have st1: "st1 = snd (expelPhase E amt (st\<lparr>available := False\<rparr>))"
    using ep by (simp add: st0_def)
  have after: "dr \<noteq> [] \<longrightarrow> (\<forall>pre post. ex = pre @ post \<longrightarrow> cleared pre < amt)"
  proof (intro impI allI)
    fix pre post
    assume ne: "dr \<noteq> []" and sp: "ex = pre @ post"
    show "cleared pre < amt"
    proof (cases "post = []")
      case True
      with sp d(6) ne e(6) show ?thesis by simp
    next
      case False
      from e(2) sp have "list_all isExpelEvent post" by simp
      from belowTarget_after_each_expel [OF _ this False, of amt 0 pre] e(7) sp
      show ?thesis by simp
    qed
  qed
  have "calls (snd (run E st)) = calls st @ ex @ dr @ [EvVisitAsync, EvSnooze]"
    using r d(1) e(1) by simp
  with e(2,3,4,5,7,8) sps d(2) d(3) d(4) sqs d(5) after show ?thesis
    unfolding st1 e(6) by blast
qed


theorem run_expel_before_cursor_drop_witness:
  "available (demoEngine bothTriggersView) \<and>
   isReductionInCheckpointMemoryNeeded
     (getMemoryView (demoCollaborators []) (kvBucket (demoEngine bothTriggersView))) =
     (True, 660) \<and>
   sortsByChkMgrMemDescending (demoCollaborators []) \<and>
   isChkExpelEnabled (demoCollaborators []) (kvBucket (demoEngine bothTriggersView)) \<and>
   (\<forall>k v. getVBucket (demoCollaborators []) k v) \<and>
   (\<exists>ex dr n.
      calls (snd (run (demoCollaborators []) (demoEngine bothTriggersView))) =
        ex @ dr @ [EvVisitAsync, EvSnooze] \<and>
      list_all isExpelEvent ex \<and> list_all isCursorDropEvent dr \<and>
      expelledVBuckets ex = map fst (take n ([(1, 600), (7, 200), (0, 100)] :: (Vbid \<times> size_t) list)) \<and>
      belowTarget 660 0 ex \<and> belowTarget (660 - cleared ex) 0 dr)"
proof -
  have a: "available (demoEngine bothTriggersView)"
    by (simp add: demoEngine_def)
  have n: "isReductionInCheckpointMemoryNeeded
     (getMemoryView (demoCollaborators []) (kvBucket (demoEngine bothTriggersView))) =
     (True, 660)"
    by (simp add: demoEngine_def demoBucket_def demoCollaborators_def bothTriggersView_def
          isReductionInCheckpointMemoryNeeded_def Let_def)
  have s: "sortsByChkMgrMemDescending (demoCollaborators [])"
    by (simp add: sortsByChkMgrMemDescending_def demoCollaborators_def)
  have x: "isChkExpelEnabled (demoCollaborators []) (kvBucket (demoEngine bothTriggersView))"
    by (simp add: demoEngine_def demoBucket_def demoCollaborators_def)
  have g: "\<forall>k v. getVBucket (demoCollaborators []) k v"
    by (simp add: demoCollaborators_def)
  have c: "calls (demoEngine bothTriggersView) = []"
    by (simp add: demoEngine_def)
  have l: "getVBucketsSortedByChkMgrMem (demoCollaborators [])
             (kvBucket (demoEngine bothTriggersView)) = [(1, 600), (7, 200), (0, 100)]"
    by (simp add: demoCollaborators_def)
  from run_expel_before_cursor_drop [OF a n s]
  obtain ex dr ps and qs :: "(Vbid \<times> size_t) list" where
    r: "calls (snd (run (demoCollaborators []) (demoEngine bothTriggersView))) =
          calls (demoEngine bothTriggersView) @ ex @ dr @ [EvVisitAsync, EvSnooze]"
       "list_all isExpelEvent ex" "list_all isCursorDropEvent dr"
       "expelledVBuckets ex = map fst ps"
       "belowTarget 660 0 ex" "belowTarget (660 - cleared ex) 0 dr"
       "isChkExpelEnabled (demoCollaborators []) (kvBucket (demoEngine bothTriggersView)) \<and>
        (\<forall>k v. getVBucket (demoCollaborators []) k v) \<longrightarrow>
          (\<exists>n. ps = take n (getVBucketsSortedByChkMgrMem (demoCollaborators [])
                                 (kvBucket (demoEngine bothTriggersView))) \<and>
               (n < length (getVBucketsSortedByChkMgrMem (demoCollaborators [])
                              (kvBucket (demoEngine bothTriggersView))) \<longrightarrow>
                  660 \<le> cleared ex))"
    by (elim exE conjE)
  from r(7) x g obtain n where
    "ps = take n (getVBucketsSortedByChkMgrMem (demoCollaborators [])
                    (kvBucket (demoEngine bothTriggersView)))"
    by blast
  then have p: "expelledVBuckets ex = map fst (take n ([(1, 600), (7, 200), (0, 100)] :: (Vbid \<times> size_t) list))"
    using r(4) l by simp
  have "calls (snd (run (demoCollaborators []) (demoEngine bothTriggersView))) =
          ex @ dr @ [EvVisitAsync, EvSnooze]"
    using r(1) c by simp
  with r(2,3,5,6) p
  have "\<exists>ex dr n.
      calls (snd (run (demoCollaborators []) (demoEngine bothTriggersView))) =
        ex @ dr @ [EvVisitAsync, EvSnooze] \<and>
      list_all isExpelEvent ex \<and> list_all isCursorDropEvent dr \<and>
      expelledVBuckets ex = map fst (take n ([(1, 600), (7, 200), (0, 100)] :: (Vbid \<times> size_t) list)) \<and>
      belowTarget 660 0 ex \<and> belowTarget (660 - cleared ex) 0 dr"
    by (intro exI conjI)
  with a n s x g show ?thesis by (intro conjI)
qed

text \<open>
  C4 as stated fails: in a state where neither trigger holds, the run still schedules
  the visitor.
\<close>

theorem run_idle_counterexample:
  "\<not> fst (isReductionInCheckpointMemoryNeeded
            (getMemoryView (demoCollaborators []) (kvBucket (demoEngine idleView)))) \<and>
   EvVisitAsync \<in> set (calls (snd (run (demoCollaborators []) (demoEngine idleView))))"
  by (simp add: run_def demoEngine_def demoBucket_def demoCollaborators_def idleView_def
        isReductionInCheckpointMemoryNeeded_def Let_def)


lemma reduceMemory_log:
  "\<exists>evs. calls (reduceMemory E amt st) = calls st @ evs \<and>
         list_all (\<lambda>e. isExpelEvent e \<or> isCursorDropEvent e) evs"
proof -
  obtain rec st1 where ep: "expelPhase E amt st = (rec, st1)"
    by (cases "expelPhase E amt st")
  from expelPhase_log [OF ep] obtain ex where
    e: "calls st1 = calls st @ ex" "list_all isExpelEvent ex"
    by blast
  from e(2) have ex: "list_all (\<lambda>e. isExpelEvent e \<or> isCursorDropEvent e) ex"
    by (simp add: list_all_iff)
  show ?thesis
  proof (cases "rec < amt")
    case True
    obtain mc2 st2 where
      a: "attemptMemoryRecovery E cursorDrop (amt - rec) st1 = (mc2, st2)"
      by (cases "attemptMemoryRecovery E cursorDrop (amt - rec) st1")
    then have "recoverVBuckets E cursorDrop (amt - rec)
        (getVBucketsSortedByChkMgrMem E (kvBucket st1)) (0, st1) = (mc2, st2)"
      by (simp add: attemptMemoryRecovery_def)
    from cursor_pass_log [OF this] obtain dr where
      d: "calls st2 = calls st1 @ dr" "list_all isCursorDropEvent dr"
      by blast
    from d(2) have "list_all (\<lambda>e. isExpelEvent e \<or> isCursorDropEvent e) dr"
      by (simp add: list_all_iff)
    with ex have "list_all (\<lambda>e. isExpelEvent e \<or> isCursorDropEvent e) (ex @ dr)"
      by simp
    moreover have "calls (reduceMemory E amt st) = calls st @ ex @ dr"
      using True ep a e(1) d(1) by (simp add: reduceMemory_def)
    ultimately show ?thesis by blast
  next
    case False
    with ep e(1) have "calls (reduceMemory E amt st) = calls st @ ex"
      by (simp add: reduceMemory_def)
    with ex show ?thesis by blast
  qed
qed

text \<open>
  C4, amended. A run that finds the task available schedules the visitor exactly
  once, after whatever expels and cursor drops it makes, whether or not recovery is
  needed. If neither trigger holds, scheduling the visitor and the snooze are all it
  does: no expel is attempted, no cursor is dropped, and the bucket and the counters
  are left as they were. A run that finds the task not available only snoozes.
\<close>

theorem run_idle:
  "(available st \<longrightarrow>
      (\<exists>evs. calls (snd (run E st)) = calls st @ evs @ [EvVisitAsync, EvSnooze] \<and>
             list_all (\<lambda>e. isExpelEvent e \<or> isCursorDropEvent e) evs) \<and>
      (\<not> fst (isReductionInCheckpointMemoryNeeded (getMemoryView E (kvBucket st))) \<longrightarrow>
         run E st = (True, st\<lparr>available := False,
                              calls := calls st @ [EvVisitAsync, EvSnooze]\<rparr>))) \<and>
   (\<not> available st \<longrightarrow> run E st = (True, st\<lparr>calls := calls st @ [EvSnooze]\<rparr>))"
proof (intro conjI impI)
  assume av: "available st"
  let ?st0 = "st\<lparr>available := False\<rparr>"
  obtain need amt where
    n: "isReductionInCheckpointMemoryNeeded (getMemoryView E (kvBucket st)) = (need, amt)"
    by (cases "isReductionInCheckpointMemoryNeeded (getMemoryView E (kvBucket st))")
  show "\<exists>evs. calls (snd (run E st)) = calls st @ evs @ [EvVisitAsync, EvSnooze] \<and>
             list_all (\<lambda>e. isExpelEvent e \<or> isCursorDropEvent e) evs"
  proof (cases need)
    case True
    from reduceMemory_log [of E amt ?st0] obtain evs where
      l: "calls (reduceMemory E amt ?st0) = calls ?st0 @ evs"
         "list_all (\<lambda>e. isExpelEvent e \<or> isCursorDropEvent e) evs"
      by blast
    have "calls (snd (run E st)) = calls (reduceMemory E amt ?st0) @ [EvVisitAsync, EvSnooze]"
      using av n True by (simp add: run_def Let_def)
    with l have "calls (snd (run E st)) = calls st @ evs @ [EvVisitAsync, EvSnooze]"
      by simp
    with l(2) show ?thesis by blast
  next
    case False
    have "calls (snd (run E st)) = calls st @ [] @ [EvVisitAsync, EvSnooze]"
      using av n False by (simp add: run_def Let_def)
    moreover have "list_all (\<lambda>e. isExpelEvent e \<or> isCursorDropEvent e) []" by simp
    ultimately show ?thesis by blast
  qed
next
  assume av: "available st"
    and nn: "\<not> fst (isReductionInCheckpointMemoryNeeded (getMemoryView E (kvBucket st)))"
  obtain need amt where
    n: "isReductionInCheckpointMemoryNeeded (getMemoryView E (kvBucket st)) = (need, amt)"
    by (cases "isReductionInCheckpointMemoryNeeded (getMemoryView E (kvBucket st))")
  with nn have "\<not> need" by simp
  with av n show "run E st = (True, st\<lparr>available := False,
                              calls := calls st @ [EvVisitAsync, EvSnooze]\<rparr>)"
    by (simp add: run_def Let_def)
next
  assume "\<not> available st"
  then show "run E st = (True, st\<lparr>calls := calls st @ [EvSnooze]\<rparr>)"
    by (simp add: run_def Let_def)
qed

theorem run_idle_witness:
  "available (demoEngine idleView) \<and>
   \<not> fst (isReductionInCheckpointMemoryNeeded
            (getMemoryView (demoCollaborators []) (kvBucket (demoEngine idleView)))) \<and>
   run (demoCollaborators []) (demoEngine idleView) =
     (True, (demoEngine idleView)\<lparr>available := False, calls := [EvVisitAsync, EvSnooze]\<rparr>) \<and>
   \<not> available ((demoEngine idleView)\<lparr>available := False\<rparr>) \<and>
   run (demoCollaborators []) ((demoEngine idleView)\<lparr>available := False\<rparr>) =
     (True, (demoEngine idleView)\<lparr>available := False, calls := [EvSnooze]\<rparr>)"
proof -
  have a: "available (demoEngine idleView)" by (simp add: demoEngine_def)
  have n: "\<not> fst (isReductionInCheckpointMemoryNeeded
            (getMemoryView (demoCollaborators []) (kvBucket (demoEngine idleView))))"
    by (simp add: demoEngine_def demoBucket_def demoCollaborators_def idleView_def
        isReductionInCheckpointMemoryNeeded_def Let_def)
  have c: "calls (demoEngine idleView) = []" by (simp add: demoEngine_def)
  have a': "\<not> available ((demoEngine idleView)\<lparr>available := False\<rparr>)" by simp
  from run_idle [of "demoEngine idleView" "demoCollaborators []"] a n c
  have r1: "run (demoCollaborators []) (demoEngine idleView) =
     (True, (demoEngine idleView)\<lparr>available := False, calls := [EvVisitAsync, EvSnooze]\<rparr>)"
    by simp
  from run_idle [of "(demoEngine idleView)\<lparr>available := False\<rparr>" "demoCollaborators []"] a' c
  have r2: "run (demoCollaborators []) ((demoEngine idleView)\<lparr>available := False\<rparr>) =
     (True, (demoEngine idleView)\<lparr>available := False, calls := [EvSnooze]\<rparr>)"
    by simp
  from a n r1 a' r2 show ?thesis by (intro conjI)
qed

text \<open>
  C6. Take any cursor of the list returned by \<^verbatim>\<open>getListOfCursorsToDrop\<close>, the cursors
  \<open>before\<close> it and the cursors \<open>rest\<close> after it, and let \<open>mc1\<close> and \<open>st1\<close> be the memory
  cleared and the state when the loop is done with the cursors before it.
  \<^item> If the target is not yet met (\<open>mc1 < amt\<close>), the hook \<^verbatim>\<open>handleSlowStream\<close> is called on
    the partition and this cursor. If it returns true, the memory of the partition's
    unreferenced checkpoints, read after the hook, is added to the memory cleared (and
    to the statistics); if it returns false, nothing is added. The loop then goes on
    with the rest.
  \<^item> If the target is met (\<open>amt \<le> mc1\<close>), the loop ends there: neither this cursor nor
    any later one is processed.
\<close>

theorem dropCursors_each_cursor:
  assumes "dropCursors E vbid amt before (mc, st) = (mc1, st1)"
      and "handleSlowStream E (kvBucket st1) vbid cursor = (dropped, kv')"
  shows "(mc1 < amt \<longrightarrow>
            dropCursors E vbid amt (before @ cursor # rest) (mc, st) =
              dropCursors E vbid amt rest
                (if dropped
                 then (mc1 + getChkMgrMemUsageOfUnrefCheckpoints E kv' vbid,
                       st1\<lparr>kvBucket := kv',
                           cursorsDropped := cursorsDropped st1 + 1,
                           cursorMemoryFreed := cursorMemoryFreed st1 +
                              getChkMgrMemUsageOfUnrefCheckpoints E kv' vbid,
                           calls := calls st1 @
                             [EvHandleSlowStream vbid cursor True,
                              EvUnrefMem vbid (getChkMgrMemUsageOfUnrefCheckpoints E kv' vbid)]\<rparr>)
                 else (mc1, st1\<lparr>kvBucket := kv',
                           calls := calls st1 @ [EvHandleSlowStream vbid cursor False]\<rparr>))) \<and>
         (amt \<le> mc1 \<longrightarrow>
            dropCursors E vbid amt (before @ cursor # rest) (mc, st) = (mc1, st1))"
proof (cases "mc1 < amt")
  case True
  then have "\<not> amt \<le> mc1" by simp
  with True assms show ?thesis
    by (simp add: dropCursors_append Let_def)
next
  case False
  then have "amt \<le> mc1" by simp
  with False assms show ?thesis
    by (simp add: dropCursors_append dropCursors_met)
qed


theorem dropCursors_each_cursor_witness:
  "fst (dropCursors (demoCollaborators []) 1 600 [''replica-1'']
          (0, demoEngine bothTriggersView)) = 100 \<and>
   (100 :: size_t) < 600 \<and>
   fst (handleSlowStream (demoCollaborators [])
          (kvBucket (snd (dropCursors (demoCollaborators []) 1 600 [''replica-1'']
                            (0, demoEngine bothTriggersView)))) 1 ''replica-2'') \<and>
   fst (dropCursors (demoCollaborators []) 1 600 [''replica-1'', ''replica-2'']
          (0, demoEngine bothTriggersView)) = 350 \<and>
   dropCursors (demoCollaborators []) 1 100 [''replica-1'', ''replica-2'', ''slow'']
          (0, demoEngine bothTriggersView) =
     dropCursors (demoCollaborators []) 1 100 [''replica-1''] (0, demoEngine bothTriggersView)"
proof -
  let ?D = "demoCollaborators []"
  let ?S = "demoEngine bothTriggersView"
  define st1 where "st1 = snd (dropCursors ?D 1 600 [''replica-1''] (0, ?S))"
  define kv' where "kv' = snd (handleSlowStream ?D (kvBucket st1) 1 ''replica-2'')"
  have a: "dropCursors ?D 1 600 [''replica-1''] (0, ?S) = (100, st1)"
    by (simp add: st1_def demoCollaborators_def demoEngine_def demoBucket_def Let_def)
  have b: "handleSlowStream ?D (kvBucket st1) 1 ''replica-2'' = (True, kv')"
    by (simp add: kv'_def st1_def demoCollaborators_def demoEngine_def demoBucket_def Let_def)
  have u: "getChkMgrMemUsageOfUnrefCheckpoints ?D kv' 1 = 250"
    by (simp add: kv'_def st1_def demoCollaborators_def demoEngine_def demoBucket_def Let_def)
  define t1 where "t1 = snd (dropCursors ?D 1 100 [''replica-1''] (0, ?S))"
  have a': "dropCursors ?D 1 100 [''replica-1''] (0, ?S) = (100, t1)"
    by (simp add: t1_def demoCollaborators_def demoEngine_def demoBucket_def Let_def)
  obtain d k where b': "handleSlowStream ?D (kvBucket t1) 1 ''replica-2'' = (d, k)"
    by (cases "handleSlowStream ?D (kvBucket t1) 1 ''replica-2''")
  from dropCursors_each_cursor [OF a b, of "[]"] u
  have "fst (dropCursors ?D 1 600 [''replica-1'', ''replica-2''] (0, ?S)) = 350"
    by (simp del: dropCursors.simps(2))
  moreover from dropCursors_each_cursor [OF a' b', of "[''slow'']"] a'
  have "dropCursors ?D 1 100 [''replica-1'', ''replica-2'', ''slow''] (0, ?S) =
        dropCursors ?D 1 100 [''replica-1''] (0, ?S)"
    by (simp del: dropCursors.simps(2))
  ultimately show ?thesis using a b by (simp del: dropCursors.simps(2))
qed






section \<open>Results about the paging visitor\<close>

text \<open>
  C8. When the paging visitor removes the closed unreferenced checkpoints of a
  partition, it calls \<^verbatim>\<open>notifyVBConnections\<close> with the partition and the partition's high
  seqno (as it is after the removal) if the removal reports that a new open checkpoint
  was created, and makes no call at all otherwise.
\<close>

theorem PagingVisitor_notifies_iff_new_checkpoint:
  assumes "removeClosedUnrefCheckpoints E (kvBucket st) vbid =
             ((removed, newCheckpointCreated), kv')"
  shows "calls (PagingVisitor_removeClosedUnrefCheckpoints E vbid st) =
           calls st @ (if newCheckpointCreated
                       then [EvNotifyVBConnections vbid (getHighSeqno E kv' vbid)] else []) \<and>
         kvBucket (PagingVisitor_removeClosedUnrefCheckpoints E vbid st) = kv' \<and>
         itemsRemovedFromCheckpoints (PagingVisitor_removeClosedUnrefCheckpoints E vbid st) =
           itemsRemovedFromCheckpoints st + removed"
  using assms by (simp add: PagingVisitor_removeClosedUnrefCheckpoints_def)


theorem PagingVisitor_notifies_iff_new_checkpoint_witness:
  "removeClosedUnrefCheckpoints (demoCollaborators []) (kvBucket (demoEngine idleView)) 1 =
     ((3, True), demoBucket idleView) \<and>
   calls (PagingVisitor_removeClosedUnrefCheckpoints (demoCollaborators []) 1
            (demoEngine idleView)) = [EvNotifyVBConnections 1 42] \<and>
   removeClosedUnrefCheckpoints (demoCollaborators []) (kvBucket (demoEngine idleView)) 0 =
     ((3, False), demoBucket idleView) \<and>
   calls (PagingVisitor_removeClosedUnrefCheckpoints (demoCollaborators []) 0
            (demoEngine idleView)) = []"
proof -
  let ?D = "demoCollaborators []"
  have r1: "removeClosedUnrefCheckpoints ?D (kvBucket (demoEngine idleView)) 1 =
              ((3, True), demoBucket idleView)"
    by (simp add: demoCollaborators_def demoEngine_def)
  have r0: "removeClosedUnrefCheckpoints ?D (kvBucket (demoEngine idleView)) 0 =
              ((3, False), demoBucket idleView)"
    by (simp add: demoCollaborators_def demoEngine_def)
  have c: "calls (demoEngine idleView) = []" by (simp add: demoEngine_def)
  have h: "getHighSeqno ?D (demoBucket idleView) 1 = 42"
    by (simp add: demoCollaborators_def)
  from PagingVisitor_notifies_iff_new_checkpoint [OF r1]
       PagingVisitor_notifies_iff_new_checkpoint [OF r0] r1 r0 c h
  show ?thesis by simp
qed



section \<open>Results about draining a cursor\<close>

lemma numNonMeta_Cons:
  "numNonMeta (qi # qis) = (if isCheckPointMetaItem qi then 0 else 1) + numNonMeta qis"
  by (simp add: numNonMeta_def)

lemma numNonMeta_append: "numNonMeta (xs @ ys) = numNonMeta xs + numNonMeta ys"
  by (simp add: numNonMeta_def)

lemma count_step:
  "(if isCheckPointMetaItem qi then n else Suc n) + numNonMeta xs = n + numNonMeta (qi # xs)"
  by (simp add: numNonMeta_def)

lemma walk_spec:
  "walk lim ty n j qis cps = (fetched, k, j', avail) \<Longrightarrow>
     k \<le> length cps \<and>
     fetched = qis @ concat (map ckptItems (take k cps)) \<and>
     (\<forall>c \<in> set (take k cps). ckptType c = ty) \<and>
     j' = (if k = 0 then j + length qis else length (ckptItems (cps ! (k - 1)))) \<and>
     (avail \<longleftrightarrow> k < length cps) \<and>
     (k < length cps \<longrightarrow>
        limitReached lim (n + numNonMeta fetched) \<or> ckptType (cps ! k) \<noteq> ty) \<and>
     (\<forall>k' < k. \<not> limitReached lim
                   (n + numNonMeta (qis @ concat (map ckptItems (take k' cps)))))"
proof (induction lim ty n j qis cps arbitrary: fetched k j' avail rule: walk.induct)
  case (1 lim ty n j qi qis cps)
  let ?n = "if isCheckPointMetaItem qi then n else Suc n"
  obtain f0 k0 j0 a0 where w: "walk lim ty ?n (Suc j) qis cps = (f0, k0, j0, a0)"
    by (cases "walk lim ty ?n (Suc j) qis cps") blast
  with "1.prems" have r: "fetched = qi # f0" "k = k0" "j' = j0" "avail = a0"
    by simp_all
  note ih = "1.IH" [OF w, unfolded count_step, folded r]
  from ih have a: "k \<le> length cps" by (rule conjunct1)
  from ih have f: "f0 = qis @ concat (map ckptItems (take k cps))" by blast
  from ih have t: "\<forall>c \<in> set (take k cps). ckptType c = ty" by blast
  from ih have o: "j' = (if k = 0 then Suc j + length qis
                         else length (ckptItems (cps ! (k - 1))))" by blast
  from ih have m: "avail \<longleftrightarrow> k < length cps" by blast
  from ih have s': "k < length cps \<longrightarrow>
        limitReached lim (n + numNonMeta fetched) \<or> ckptType (cps ! k) \<noteq> ty" by blast
  from ih have e: "\<forall>k' < k. \<not> limitReached lim
       (n + numNonMeta (qi # qis @ concat (map ckptItems (take k' cps))))" by blast
  have f': "fetched = (qi # qis) @ concat (map ckptItems (take k cps))"
    using f r(1) by simp
  have o': "j' = (if k = 0 then j + length (qi # qis)
                  else length (ckptItems (cps ! (k - 1))))"
    using o by simp
  have e': "\<forall>k' < k. \<not> limitReached lim
       (n + numNonMeta ((qi # qis) @ concat (map ckptItems (take k' cps))))"
    using e by simp
  from a f' t o' m s' e' show ?case by (intro conjI)
next
  case (2 lim ty n j)
  then show ?case by simp
next
  case (3 lim ty n j c cps)
  show ?case
  proof (cases "limitReached lim n \<or> ckptType c \<noteq> ty")
    case True
    with "3.prems" have "fetched = []" "k = 0" "j' = j" "avail" by simp_all
    with True show ?thesis by (simp add: numNonMeta_def)
  next
    case False
    obtain f0 k0 j0 a0 where w0: "walk lim ty n 0 (ckptItems c) cps = (f0, k0, j0, a0)"
      by (cases "walk lim ty n 0 (ckptItems c) cps") blast
    with False "3.prems" have r: "fetched = f0" "k = Suc k0" "j' = j0" "avail = a0"
      by simp_all
    from w0 r have w: "walk lim ty n 0 (ckptItems c) cps = (fetched, k0, j', avail)"
      by simp
    note k = r(2)
    note ih = "3.IH" [OF False w]
    from ih have i1: "k0 \<le> length cps" by (rule conjunct1)
    from ih have i2: "fetched = ckptItems c @ concat (map ckptItems (take k0 cps))" by blast
    from ih have i3: "\<forall>x \<in> set (take k0 cps). ckptType x = ty" by blast
    from ih have i4: "j' = (if k0 = 0 then 0 + length (ckptItems c)
                            else length (ckptItems (cps ! (k0 - 1))))" by blast
    from ih have i5: "avail \<longleftrightarrow> k0 < length cps" by blast
    from ih have i6: "k0 < length cps \<longrightarrow>
        limitReached lim (n + numNonMeta fetched) \<or> ckptType (cps ! k0) \<noteq> ty" by blast
    from ih have i7: "\<forall>k' < k0. \<not> limitReached lim
        (n + numNonMeta (ckptItems c @ concat (map ckptItems (take k' cps))))" by blast
    have a: "k \<le> length (c # cps)" using i1 k by simp
    have b: "fetched = [] @ concat (map ckptItems (take k (c # cps)))"
      using i2 k by simp
    have t: "\<forall>x \<in> set (take k (c # cps)). ckptType x = ty"
      using i3 k False by simp
    have o: "j' = (if k = 0 then j + length ([] :: queued_item list)
                   else length (ckptItems ((c # cps) ! (k - 1))))"
      using i4 k by (cases k0) simp_all
    have m: "avail \<longleftrightarrow> k < length (c # cps)" using i5 k by simp
    have s: "k < length (c # cps) \<longrightarrow>
        limitReached lim (n + numNonMeta fetched) \<or> ckptType ((c # cps) ! k) \<noteq> ty"
      using i6 k by simp
    have e: "\<forall>k' < k. \<not> limitReached lim
                   (n + numNonMeta ([] @ concat (map ckptItems (take k' (c # cps)))))"
    proof (intro allI impI)
      fix k' assume "k' < k"
      show "\<not> limitReached lim
                   (n + numNonMeta ([] @ concat (map ckptItems (take k' (c # cps)))))"
      proof (cases k')
        case 0
        with False show ?thesis by (simp add: numNonMeta_def)
      next
        case (Suc k'')
        with \<open>k' < k\<close> k have "k'' < k0" by simp
        with i7 Suc show ?thesis by simp
      qed
    qed
    from a b t o m s e show ?thesis by (intro conjI)
  qed
qed

lemma drainStart_valid:
  assumes "curCheckpoint cursor < length cl"
      and "curOffset cursor \<le> length (ckptItems (cl ! curCheckpoint cursor))"
  shows "curCheckpoint (drainStart cl cursor) < length cl \<and>
         curOffset (drainStart cl cursor)
           \<le> length (ckptItems (cl ! curCheckpoint (drainStart cl cursor)))"
  using assms by (simp add: drainStart_def)

text \<open>
  What a drain with any limit does, for a cursor that is in the list: it ends at the
  end of a checkpoint, has fetched whole checkpoints of one type, has passed no earlier
  boundary with the limit reached, and stops before the last checkpoint only on the
  limit or on a change of type.
\<close>

lemma drainCursor_spec:
  assumes v: "curCheckpoint cursor < length cl"
      and o: "curOffset cursor \<le> length (ckptItems (cl ! curCheckpoint cursor))"
      and d: "drainCursor lim cl cursor items = (items', cursor', info)"
  shows "curCheckpoint (drainStart cl cursor) \<le> curCheckpoint cursor'"
    and "curCheckpoint cursor' < length cl"
    and "curOffset cursor' = length (ckptItems (cl ! curCheckpoint cursor'))"
    and "items' = items @ itemsThrough cl (drainStart cl cursor) (curCheckpoint cursor')"
    and "checkpointType info = ckptType (cl ! curCheckpoint (drainStart cl cursor))"
    and "\<forall>i. curCheckpoint (drainStart cl cursor) \<le> i \<and> i \<le> curCheckpoint cursor' \<longrightarrow>
               ckptType (cl ! i) = checkpointType info"
    and "moreAvailable info \<longleftrightarrow> Suc (curCheckpoint cursor') < length cl"
    and "Suc (curCheckpoint cursor') < length cl \<longrightarrow>
           limitReached lim
             (numNonMeta (itemsThrough cl (drainStart cl cursor) (curCheckpoint cursor'))) \<or>
           ckptType (cl ! Suc (curCheckpoint cursor')) \<noteq> checkpointType info"
    and "\<forall>i. curCheckpoint (drainStart cl cursor) \<le> i \<and> i < curCheckpoint cursor' \<longrightarrow>
               \<not> limitReached lim (numNonMeta (itemsThrough cl (drainStart cl cursor) i))"
proof -
  define start where "start = drainStart cl cursor"
  define i0 where "i0 = curCheckpoint start"
  define j0 where "j0 = curOffset start"
  define c where "c = cl ! i0"
  define rest where "rest = drop (Suc i0) cl"
  from drainStart_valid [OF v o]
  have vi: "i0 < length cl" and vj: "j0 \<le> length (ckptItems c)"
    by (simp_all add: start_def i0_def j0_def c_def)
  obtain fetched k j' avail where
    w: "walk lim (ckptType c) 0 j0 (drop j0 (ckptItems c)) rest = (fetched, k, j', avail)"
    by (cases "walk lim (ckptType c) 0 j0 (drop j0 (ckptItems c)) rest") blast
  from d v w have r: "items' = items @ fetched"
      "cursor' = \<lparr>curCheckpoint = i0 + k, curOffset = j'\<rparr>"
      "moreAvailable info = avail" "checkpointType info = ckptType c"
    by (auto simp: drainCursor_def Let_def start_def [symmetric] i0_def [symmetric]
          j0_def [symmetric] c_def [symmetric] rest_def [symmetric])
  note ws = walk_spec [OF w]
  from ws have k: "k \<le> length rest" by (rule conjunct1)
  from ws have f: "fetched = drop j0 (ckptItems c) @ concat (map ckptItems (take k rest))"
    by blast
  from ws have t: "\<forall>x \<in> set (take k rest). ckptType x = ckptType c" by blast
  from ws have jj: "j' = (if k = 0 then j0 + length (drop j0 (ckptItems c))
                          else length (ckptItems (rest ! (k - 1))))" by blast
  from ws have a: "avail \<longleftrightarrow> k < length rest" by blast
  from ws have s: "k < length rest \<longrightarrow>
      limitReached lim (0 + numNonMeta fetched) \<or> ckptType (rest ! k) \<noteq> ckptType c"
    by blast
  from ws have e: "\<forall>k' < k. \<not> limitReached lim
      (0 + numNonMeta (drop j0 (ckptItems c) @ concat (map ckptItems (take k' rest))))"
    by blast
  have lr: "length rest = length cl - Suc i0" by (simp add: rest_def)
  have cc: "curCheckpoint cursor' = i0 + k" using r(2) by simp
  have through: "itemsThrough cl start i =
      drop j0 (ckptItems c) @ concat (map ckptItems (take (i - i0) rest))" for i
    by (simp add: itemsThrough_def i0_def j0_def c_def rest_def)
  have nth: "rest ! m = cl ! (Suc i0 + m)" if "m < length rest" for m
    using that vi by (simp add: rest_def)
  show "curCheckpoint (drainStart cl cursor) \<le> curCheckpoint cursor'"
    using cc by (simp add: start_def [symmetric] i0_def [symmetric])
  show lt: "curCheckpoint cursor' < length cl"
    using cc k lr vi by simp
  show "curOffset cursor' = length (ckptItems (cl ! curCheckpoint cursor'))"
  proof (cases k)
    case 0
    with jj vj r(2) show ?thesis by (simp add: c_def)
  next
    case (Suc k')
    with k have "k' < length rest" by simp
    from nth [OF this] Suc jj r(2) show ?thesis by simp
  qed
  show "items' = items @ itemsThrough cl (drainStart cl cursor) (curCheckpoint cursor')"
    using r(1) f cc through [of "i0 + k"] by (simp add: start_def [symmetric])
  show ty: "checkpointType info = ckptType (cl ! curCheckpoint (drainStart cl cursor))"
    using r(4) by (simp add: start_def [symmetric] i0_def [symmetric] c_def)
  show "\<forall>i. curCheckpoint (drainStart cl cursor) \<le> i \<and> i \<le> curCheckpoint cursor' \<longrightarrow>
               ckptType (cl ! i) = checkpointType info"
  proof (intro allI impI)
    fix i
    assume "curCheckpoint (drainStart cl cursor) \<le> i \<and> i \<le> curCheckpoint cursor'"
    then have b: "i0 \<le> i" "i \<le> i0 + k"
      using cc by (simp_all add: start_def [symmetric] i0_def [symmetric])
    show "ckptType (cl ! i) = checkpointType info"
    proof (cases "i = i0")
      case True
      then show ?thesis using r(4) by (simp add: c_def)
    next
      case False
      with b obtain m where m: "i = Suc i0 + m" "m < k"
        by (metis Suc_leI add_Suc add_Suc_right le_neq_implies_less less_iff_Suc_add
              nat_add_left_cancel_less less_Suc_eq_le)
      with k have ml: "m < length rest" by simp
      from m(2) ml have "rest ! m \<in> set (take k rest)"
        by (metis in_set_conv_nth length_take min_less_iff_conj nth_take)
      with t have "ckptType (rest ! m) = ckptType c" by blast
      with nth [OF ml] m(1) r(4) show ?thesis by simp
    qed
  qed
  show "moreAvailable info \<longleftrightarrow> Suc (curCheckpoint cursor') < length cl"
    using r(3) a cc lr by auto
  show "Suc (curCheckpoint cursor') < length cl \<longrightarrow>
           limitReached lim
             (numNonMeta (itemsThrough cl (drainStart cl cursor) (curCheckpoint cursor'))) \<or>
           ckptType (cl ! Suc (curCheckpoint cursor')) \<noteq> checkpointType info"
  proof
    assume "Suc (curCheckpoint cursor') < length cl"
    with cc lr have kl: "k < length rest" by simp
    with s have "limitReached lim (numNonMeta fetched) \<or> ckptType (rest ! k) \<noteq> ckptType c"
      by simp
    moreover have "fetched = itemsThrough cl start (i0 + k)"
      using f through [of "i0 + k"] by simp
    ultimately show "limitReached lim
             (numNonMeta (itemsThrough cl (drainStart cl cursor) (curCheckpoint cursor'))) \<or>
           ckptType (cl ! Suc (curCheckpoint cursor')) \<noteq> checkpointType info"
      using nth [OF kl] cc r(4) by (simp add: start_def [symmetric])
  qed
  show "\<forall>i. curCheckpoint (drainStart cl cursor) \<le> i \<and> i < curCheckpoint cursor' \<longrightarrow>
               \<not> limitReached lim (numNonMeta (itemsThrough cl (drainStart cl cursor) i))"
  proof (intro allI impI)
    fix i
    assume "curCheckpoint (drainStart cl cursor) \<le> i \<and> i < curCheckpoint cursor'"
    then have b: "i0 \<le> i" "i < i0 + k"
      using cc by (simp_all add: start_def [symmetric] i0_def [symmetric])
    then have "i - i0 < k" by simp
    with e have "\<not> limitReached lim
      (numNonMeta (drop j0 (ckptItems c) @ concat (map ckptItems (take (i - i0) rest))))"
      by simp
    then show "\<not> limitReached lim (numNonMeta (itemsThrough cl (drainStart cl cursor) i))"
      using through [of i] by (simp add: start_def [symmetric])
  qed
qed

text \<open>
  C5. Take a cursor that is in the manager's list and drain it, once bounded by
  \<open>approxLimit\<close> and once unbounded, and let \<open>start\<close> be the position the drain starts
  from. Then, for both drains:
  \<^item> the cursor ends at the end of a checkpoint, at or after the one of \<open>start\<close>, and the
    items appended are exactly the items from \<open>start\<close> to that end, so no checkpoint is
    cut in the middle;
  \<^item> all checkpoints fetched have one type, the type reported, and a drain never goes
    past a checkpoint whose successor has another type, whatever the limit;
  \<^item> a drain that ends before the last checkpoint was stopped by a change of type or,
    for the bounded drain only, by the limit; \<open>moreAvailable\<close> tells whether it ended
    before the last checkpoint.

  For the bounded drain the boundary it stops at for the limit is the first one at or
  after \<open>approxLimit\<close> non-meta items: at every earlier boundary fewer than \<open>approxLimit\<close>
  non-meta items had been fetched.
\<close>

theorem drains_stop_at_checkpoint_boundaries:
  assumes v: "curCheckpoint cursor < length cl"
      and o: "curOffset cursor \<le> length (ckptItems (cl ! curCheckpoint cursor))"
      and b: "getItemsForCursor cl cursor items approxLimit = (itemsB, cursorB, infoB)"
      and u: "getNextItemsForCursor cl cursor items = (itemsU, cursorU, infoU)"
      and st: "start = drainStart cl cursor"
  shows
    "(curCheckpoint start \<le> curCheckpoint cursorB \<and> curCheckpoint cursorB < length cl \<and>
      curOffset cursorB = length (ckptItems (cl ! curCheckpoint cursorB)) \<and>
      itemsB = items @ itemsThrough cl start (curCheckpoint cursorB) \<and>
      (\<forall>i. curCheckpoint start \<le> i \<and> i < curCheckpoint cursorB \<longrightarrow>
           numNonMeta (itemsThrough cl start i) < unat approxLimit) \<and>
      (\<forall>i. curCheckpoint start \<le> i \<and> i \<le> curCheckpoint cursorB \<longrightarrow>
           ckptType (cl ! i) = checkpointType infoB) \<and>
      (Suc (curCheckpoint cursorB) < length cl \<longrightarrow>
         unat approxLimit \<le> numNonMeta (itemsThrough cl start (curCheckpoint cursorB)) \<or>
         ckptType (cl ! Suc (curCheckpoint cursorB)) \<noteq> checkpointType infoB) \<and>
      (moreAvailable infoB \<longleftrightarrow> Suc (curCheckpoint cursorB) < length cl)) \<and>
     (curCheckpoint start \<le> curCheckpoint cursorU \<and> curCheckpoint cursorU < length cl \<and>
      curOffset cursorU = length (ckptItems (cl ! curCheckpoint cursorU)) \<and>
      itemsU = items @ itemsThrough cl start (curCheckpoint cursorU) \<and>
      (\<forall>i. curCheckpoint start \<le> i \<and> i \<le> curCheckpoint cursorU \<longrightarrow>
           ckptType (cl ! i) = checkpointType infoU) \<and>
      (Suc (curCheckpoint cursorU) < length cl \<longrightarrow>
         ckptType (cl ! Suc (curCheckpoint cursorU)) \<noteq> checkpointType infoU) \<and>
      (moreAvailable infoU \<longleftrightarrow> Suc (curCheckpoint cursorU) < length cl)) \<and>
     (\<forall>i. curCheckpoint start \<le> i \<and> Suc i < length cl \<and>
          ckptType (cl ! Suc i) \<noteq> ckptType (cl ! i) \<longrightarrow>
          curCheckpoint cursorB \<le> i \<and> curCheckpoint cursorU \<le> i)"
proof -
  from b have b': "drainCursor (Some (unat approxLimit)) cl cursor items =
                     (itemsB, cursorB, infoB)"
    by (simp add: getItemsForCursor_def)
  from u have u': "drainCursor None cl cursor items = (itemsU, cursorU, infoU)"
    by (simp add: getNextItemsForCursor_def)
  note B = drainCursor_spec [OF v o b', folded st]
  note U = drainCursor_spec [OF v o u', folded st]
  have B9: "\<forall>i. curCheckpoint start \<le> i \<and> i < curCheckpoint cursorB \<longrightarrow>
           numNonMeta (itemsThrough cl start i) < unat approxLimit"
    using B(9) by (simp add: not_le)
  have B8: "Suc (curCheckpoint cursorB) < length cl \<longrightarrow>
         unat approxLimit \<le> numNonMeta (itemsThrough cl start (curCheckpoint cursorB)) \<or>
         ckptType (cl ! Suc (curCheckpoint cursorB)) \<noteq> checkpointType infoB"
    using B(8) by simp
  have U8: "Suc (curCheckpoint cursorU) < length cl \<longrightarrow>
         ckptType (cl ! Suc (curCheckpoint cursorU)) \<noteq> checkpointType infoU"
    using U(8) by simp
  have same: "c' \<le> i"
    if r: "\<forall>m. curCheckpoint start \<le> m \<and> m \<le> c' \<longrightarrow> ckptType (cl ! m) = ty"
    and i: "curCheckpoint start \<le> i" "ckptType (cl ! Suc i) \<noteq> ckptType (cl ! i)"
    for c' i ty
  proof (rule ccontr)
    assume "\<not> c' \<le> i"
    then have "Suc i \<le> c'" "i \<le> c'" by simp_all
    with r i(1) have "ckptType (cl ! Suc i) = ty" "ckptType (cl ! i) = ty" by simp_all
    with i(2) show False by simp
  qed
  have T: "\<forall>i. curCheckpoint start \<le> i \<and> Suc i < length cl \<and>
          ckptType (cl ! Suc i) \<noteq> ckptType (cl ! i) \<longrightarrow>
          curCheckpoint cursorB \<le> i \<and> curCheckpoint cursorU \<le> i"
    using same [OF B(6)] same [OF U(6)] by blast
  from B(1,2,3,4) B9 B(6) B8 B(7) U(1,2,3,4) U(6) U8 U(7) T
  show ?thesis by (intro conjI)
qed

theorem drains_stop_at_checkpoint_boundaries_witness:
  "curCheckpoint \<lparr>curCheckpoint = 0, curOffset = 1\<rparr> < length demoLog \<and>
   curOffset \<lparr>curCheckpoint = 0, curOffset = 1\<rparr>
     \<le> length (ckptItems (demoLog ! curCheckpoint \<lparr>curCheckpoint = 0, curOffset = 1\<rparr>)) \<and>
   fst (snd (getItemsForCursor demoLog \<lparr>curCheckpoint = 0, curOffset = 1\<rparr> [] 1)) =
     \<lparr>curCheckpoint = 0, curOffset = 4\<rparr> \<and>
   fst (snd (getNextItemsForCursor demoLog \<lparr>curCheckpoint = 0, curOffset = 1\<rparr> [])) =
     \<lparr>curCheckpoint = 1, curOffset = 4\<rparr> \<and>
   ckptType (demoLog ! 2) \<noteq> ckptType (demoLog ! 1) \<and>
   numNonMeta (fst (getNextItemsForCursor demoLog \<lparr>curCheckpoint = 0, curOffset = 1\<rparr> [])) = 4 \<and>
   fst (getItemsForCursor demoLog \<lparr>curCheckpoint = 0, curOffset = 1\<rparr> [] 1) =
     itemsThrough demoLog \<lparr>curCheckpoint = 0, curOffset = 1\<rparr> 0"
proof -
  let ?c = "\<lparr>curCheckpoint = 0, curOffset = 1\<rparr>"
  have v: "curCheckpoint ?c < length demoLog" by (simp add: demoLog_def)
  have o: "curOffset ?c \<le> length (ckptItems (demoLog ! curCheckpoint ?c))"
    by (simp add: demoLog_def)
  have s: "?c = drainStart demoLog ?c"
    by (simp add: drainStart_def demoLog_def)
  obtain iB cB nB where b: "getItemsForCursor demoLog ?c [] 1 = (iB, cB, nB)"
    by (cases "getItemsForCursor demoLog ?c [] 1") blast
  obtain iU cU nU where u: "getNextItemsForCursor demoLog ?c [] = (iU, cU, nU)"
    by (cases "getNextItemsForCursor demoLog ?c []") blast
  have cb: "cB = \<lparr>curCheckpoint = 0, curOffset = 4\<rparr>"
    using b by (auto simp: getItemsForCursor_def drainCursor_def drainStart_def demoLog_def
          demoItem_def isCheckPointMetaItem_def Let_def)
  have cu: "cU = \<lparr>curCheckpoint = 1, curOffset = 4\<rparr>"
    using u by (auto simp: getNextItemsForCursor_def drainCursor_def drainStart_def demoLog_def
          demoItem_def isCheckPointMetaItem_def Let_def)
  have ty: "ckptType (demoLog ! 2) \<noteq> ckptType (demoLog ! 1)"
    by (simp add: demoLog_def)
  have nu: "numNonMeta iU = 4"
    using u by (auto simp: getNextItemsForCursor_def drainCursor_def drainStart_def demoLog_def
          demoItem_def isCheckPointMetaItem_def numNonMeta_def Let_def)
  from drains_stop_at_checkpoint_boundaries [OF v o b u s]
  have "iB = [] @ itemsThrough demoLog ?c (curCheckpoint cB)" by (elim conjE)
  with cb have ib: "iB = itemsThrough demoLog ?c 0" by simp
  from v o cb cu ty nu ib b u show ?thesis by simp
qed


section \<open>Results about registering a cursor\<close>


lemma firstIndex_None: "firstIndex P xs = None \<Longrightarrow> \<forall>x \<in> set xs. \<not> P x"
  by (induction xs) (auto split: if_splits)








end
